theory Spec2Isabelle
  imports Main "HOL-Library.Sublist"
begin

section \<open>Shared data model (src/types.ts)\<close>

text \<open>
  A \<open>Uint8Array\<close> payload is a list of byte values. A JavaScript \<open>Date\<close> is left
  abstract (type variable \<open>'d\<close>): the hooks only copy dates around, except for
  \<open>toISOString\<close>, which is taken as a parameter where it is used.
  The type variable \<open>'u\<close> stands for the JavaScript values that a decoder produces; the
  cast \<open>decoded as unknown as U\<close> of the source is the identity on them.
\<close>

type_synonym bytes = "nat list"

record ('u, 'd) natsEntry =
  key :: string
  entry_value :: 'u
  created :: 'd

record ('u, 'd) natsMessage =
  subject :: string
  msg_value :: 'u
  received :: 'd

section \<open>useNatsKvTable.ts\<close>

subsection \<open>Array primitives of the host\<close>

text \<open>
  \<open>Array.prototype.findIndex\<close>: the index of the first element satisfying the
  predicate, \<open>-1\<close> when there is none.
\<close>

fun findIndex :: "('a \<Rightarrow> bool) \<Rightarrow> 'a list \<Rightarrow> int" where
  "findIndex P [] = - 1"
| "findIndex P (x # xs) =
     (if P x then 0
      else (let i = findIndex P xs in if i < 0 then - 1 else i + 1))"

text \<open>
  \<open>Array.prototype.sort(compareFn)\<close> is a stable sort. For a consistent comparator its
  result is determined: the stable sorted permutation, which is what insertion from the
  right computes. \<open>x\<close> is placed in front of the first \<open>y\<close> with \<open>compareFn x y \<le> 0\<close>, so
  elements that compare equal keep their input order.
\<close>

fun insert_sorted :: "('a \<Rightarrow> 'a \<Rightarrow> int) \<Rightarrow> 'a \<Rightarrow> 'a list \<Rightarrow> 'a list" where
  "insert_sorted cmp x [] = [x]"
| "insert_sorted cmp x (y # ys) =
     (if cmp x y \<le> 0 then x # y # ys else y # insert_sorted cmp x ys)"

definition array_sort :: "('a \<Rightarrow> 'a \<Rightarrow> int) \<Rightarrow> 'a list \<Rightarrow> 'a list" where
  "array_sort cmp xs = foldr (insert_sorted cmp) xs []"

text \<open>\<open>arr.slice(from, to)\<close> and \<open>arr.slice(from)\<close> for indices within bounds.\<close>

definition slice :: "'a list \<Rightarrow> nat \<Rightarrow> nat \<Rightarrow> 'a list" where
  "slice arr from to = take (to - from) (drop from arr)"

definition slice_from :: "'a list \<Rightarrow> nat \<Rightarrow> 'a list" where
  "slice_from arr from = drop from arr"

text \<open>
  \<open>String.prototype.localeCompare\<close> is supplied by the host's collation and is a
  parameter \<open>lc\<close> of the model: negative, zero or positive. The language standard requires
  it to be a consistent comparator; that contract is stated here and assumed only where a
  theorem says so.
\<close>

definition consistent_comparator :: "(string \<Rightarrow> string \<Rightarrow> int) \<Rightarrow> bool" where
  "consistent_comparator lc \<longleftrightarrow>
     (\<forall>a. lc a a = 0) \<and>
     (\<forall>a b. (lc a b < 0) = (0 < lc b a)) \<and>
     (\<forall>a b c. lc a b \<le> 0 \<and> lc b c \<le> 0 \<longrightarrow> lc a c \<le> 0)"

text \<open>
  A concrete collation used for evaluating the model on sample inputs: comparison of
  strings code unit by code unit.
\<close>

fun codeunit_compare :: "string \<Rightarrow> string \<Rightarrow> int" where
  "codeunit_compare [] [] = 0"
| "codeunit_compare [] (y # ys) = - 1"
| "codeunit_compare (x # xs) [] = 1"
| "codeunit_compare (x # xs) (y # ys) =
     (if (of_char x :: nat) < of_char y then - 1
      else if (of_char y :: nat) < of_char x then 1
      else codeunit_compare xs ys)"

subsection \<open>stableUpsert (lines 16-36)\<close>

text \<open>
  The comparator handed to \<open>sort\<close> is \<open>(a, b) => a.key.localeCompare(b.key)\<close>.
  With \<open>inPlace\<close> the source mutates \<open>arr\<close> and returns it; the model returns the
  array's new contents. Both callers pass an array nobody else reads afterwards
  (\<open>flushUpdates\<close> passes a fresh copy of the previous state).
\<close>

definition by_key :: "(string \<Rightarrow> string \<Rightarrow> int) \<Rightarrow> ('u, 'd) natsEntry \<Rightarrow> ('u, 'd) natsEntry \<Rightarrow> int" where
  "by_key lc a b = lc (key a) (key b)"

definition stableUpsert ::
  "(string \<Rightarrow> string \<Rightarrow> int) \<Rightarrow> ('u, 'd) natsEntry list \<Rightarrow> ('u, 'd) natsEntry \<Rightarrow> bool
     \<Rightarrow> ('u, 'd) natsEntry list" where
  "stableUpsert lc arr newEntry inPlace =
     (let index = findIndex (\<lambda>item. key item = key newEntry) arr in
      if index \<ge> 0 then
        (if inPlace then arr[nat index := newEntry]
         else slice arr 0 (nat index) @ [newEntry] @ slice_from arr (nat index + 1))
      else
        (if inPlace then array_sort (by_key lc) (arr @ [newEntry])
         else array_sort (by_key lc) (arr @ [newEntry])))"

subsection \<open>The hook's state and its event handlers\<close>

text \<open>
  \<open>entries\<close> is the \<open>useState\<close> cell, \<open>pendingUpdates\<close> the \<open>useRef\<close> cell; both
  outlive a re-run of the effect. State updaters passed to \<open>setEntries\<close> are applied in
  the order they were queued, so each handler is a function from state to state.
\<close>

datatype operation = PUT | DEL | PURGE

record 'd kvWatchEntry =
  e_operation :: operation
  e_key :: string
  e_value :: bytes
  e_created :: 'd

record ('u, 'd) kvTable =
  entries :: "('u, 'd) natsEntry list"
  pendingUpdates :: "('u, 'd) natsEntry list"

text \<open>
  Lines 83-91 and 105-113. \<open>decoder.decode\<close> and \<open>enrich\<close> are the caller's functions;
  \<open>None\<close> is a call that throws.
\<close>

definition newEntry_of ::
  "(bytes \<Rightarrow> 'u option) \<Rightarrow> (string \<Rightarrow> 'd \<Rightarrow> 'u \<Rightarrow> 'u option) option \<Rightarrow> 'd kvWatchEntry
     \<Rightarrow> ('u, 'd) natsEntry option" where
  "newEntry_of decoder enrich e =
     (case decoder (e_value e) of
        None \<Rightarrow> None
      | Some decoded \<Rightarrow>
          (case (case enrich of
                   Some f \<Rightarrow> f (e_key e) (e_created e) decoded
                 | None \<Rightarrow> Some decoded) of
             None \<Rightarrow> None
           | Some enrichedValue \<Rightarrow>
               Some \<lparr>key = e_key e, entry_value = enrichedValue, created = e_created e\<rparr>))"

text \<open>\<open>flushUpdates\<close>, lines 62-74.\<close>

definition flushUpdates ::
  "(string \<Rightarrow> string \<Rightarrow> int) \<Rightarrow> ('u, 'd) kvTable \<Rightarrow> ('u, 'd) kvTable" where
  "flushUpdates lc s =
     (let updatesToProcess = pendingUpdates s in
      if length updatesToProcess > 0 then
        s\<lparr>pendingUpdates := [],
          entries := foldl (\<lambda>acc newEntry. stableUpsert lc acc newEntry True)
                       (entries s) updatesToProcess\<rparr>
      else s)"

text \<open>
  The body of the watch loop when \<open>refreshInterval > 0\<close>, lines 81-99. When the decoder
  or \<open>enrich\<close> throws, the loop ends without touching the state.
\<close>

definition watch_batched ::
  "(bytes \<Rightarrow> 'u option) \<Rightarrow> (string \<Rightarrow> 'd \<Rightarrow> 'u \<Rightarrow> 'u option) option \<Rightarrow> ('u, 'd) kvTable
     \<Rightarrow> 'd kvWatchEntry \<Rightarrow> ('u, 'd) kvTable" where
  "watch_batched decoder enrich s e =
     (if e_operation e = PUT then
        (case newEntry_of decoder enrich e of
           None \<Rightarrow> s
         | Some newEntry \<Rightarrow> s\<lparr>pendingUpdates := pendingUpdates s @ [newEntry]\<rparr>)
      else if e_operation e = DEL \<or> e_operation e = PURGE then
        s\<lparr>pendingUpdates := filter (\<lambda>item. key item \<noteq> e_key e) (pendingUpdates s),
          entries := filter (\<lambda>item. key item \<noteq> e_key e) (entries s)\<rparr>
      else s)"

text \<open>The body of the watch loop when \<open>refreshInterval \<le> 0\<close>, lines 103-118.\<close>

definition watch_unbatched ::
  "(string \<Rightarrow> string \<Rightarrow> int) \<Rightarrow> (bytes \<Rightarrow> 'u option)
     \<Rightarrow> (string \<Rightarrow> 'd \<Rightarrow> 'u \<Rightarrow> 'u option) option \<Rightarrow> ('u, 'd) kvTable
     \<Rightarrow> 'd kvWatchEntry \<Rightarrow> ('u, 'd) kvTable" where
  "watch_unbatched lc decoder enrich s e =
     (if e_operation e = PUT then
        (case newEntry_of decoder enrich e of
           None \<Rightarrow> s
         | Some newEntry \<Rightarrow> s\<lparr>entries := stableUpsert lc (entries s) newEntry False\<rparr>)
      else if e_operation e = DEL \<or> e_operation e = PURGE then
        s\<lparr>entries := filter (\<lambda>item. key item \<noteq> e_key e) (entries s)\<rparr>
      else s)"

text \<open>
  What can happen to the hook's state. \<open>Watch r e\<close>: a watch loop started by an effect
  run with \<open>refreshInterval = r\<close> receives \<open>e\<close> (line 76 chooses the loop by \<open>r > 0\<close>).
  \<open>Flush\<close>: \<open>flushUpdates\<close> runs, from the interval timer or from the call at line 77.
  The hook starts with both cells empty (lines 46-47). In the code a loop whose decoder or
  \<open>enrich\<close> has thrown handles no further event; the events are not restricted
  accordingly here, so the runs below include every run of the code.
\<close>

datatype 'd kvEvent = Watch int "'d kvWatchEntry" | Flush

definition kvStep ::
  "(string \<Rightarrow> string \<Rightarrow> int) \<Rightarrow> (bytes \<Rightarrow> 'u option)
     \<Rightarrow> (string \<Rightarrow> 'd \<Rightarrow> 'u \<Rightarrow> 'u option) option \<Rightarrow> ('u, 'd) kvTable
     \<Rightarrow> 'd kvEvent \<Rightarrow> ('u, 'd) kvTable" where
  "kvStep lc decoder enrich s ev =
     (case ev of
        Watch refreshInterval e \<Rightarrow>
          (if refreshInterval > 0 then watch_batched decoder enrich s e
           else watch_unbatched lc decoder enrich s e)
      | Flush \<Rightarrow> flushUpdates lc s)"

definition kvInit :: "('u, 'd) kvTable" where
  "kvInit = \<lparr>entries = [], pendingUpdates = []\<rparr>"

definition useNatsKvTable ::
  "(string \<Rightarrow> string \<Rightarrow> int) \<Rightarrow> (bytes \<Rightarrow> 'u option)
     \<Rightarrow> (string \<Rightarrow> 'd \<Rightarrow> 'u \<Rightarrow> 'u option) option \<Rightarrow> 'd kvEvent list \<Rightarrow> ('u, 'd) kvTable" where
  "useNatsKvTable lc decoder enrich evs = foldl (kvStep lc decoder enrich) kvInit evs"

text \<open>The invariant of the table: ascending by \<open>localeCompare\<close>, one entry per key.\<close>

definition table_ok :: "(string \<Rightarrow> string \<Rightarrow> int) \<Rightarrow> ('u, 'd) natsEntry list \<Rightarrow> bool" where
  "table_ok lc arr \<longleftrightarrow>
     sorted_wrt (\<lambda>a b. lc (key a) (key b) \<le> 0) arr \<and> distinct (map key arr)"

text \<open>Sample inputs for evaluating the table hook: byte-list values, dates as numbers.\<close>

definition entry :: "string \<Rightarrow> nat \<Rightarrow> (bytes, nat) natsEntry" where
  "entry k v = \<lparr>key = k, entry_value = [v], created = 0\<rparr>"

definition watchEntry :: "operation \<Rightarrow> string \<Rightarrow> nat \<Rightarrow> nat kvWatchEntry" where
  "watchEntry op k v = \<lparr>e_operation = op, e_key = k, e_value = [v], e_created = 0\<rparr>"

section \<open>NatsProvider.tsx\<close>

text \<open>
  An options object is a finite map from property names to values; the object spread
  \<open>{...a, ...b}\<close> is \<open>a ++ b\<close>: a property of \<open>b\<close> replaces the property of the same name
  in \<open>a\<close>. An \<open>options\<close> prop that is not passed is \<open>None\<close>.
\<close>

datatype jsValue = JUndefined | JBool bool | JNumber int | JString string | JStrings "string list"

type_synonym jsObject = "string \<rightharpoonup> jsValue"

text \<open>The argument of \<open>wsconnect\<close>, lines 31-37, with the default \<open>options = {}\<close> of line 14.\<close>

definition wsconnect_argument :: "string \<Rightarrow> jsObject option \<Rightarrow> jsObject" where
  "wsconnect_argument url options =
     [''servers'' \<mapsto> JString url,
      ''reconnect'' \<mapsto> JBool True,
      ''pingInterval'' \<mapsto> JNumber 10000,
      ''maxPingOut'' \<mapsto> JNumber 5]
     ++ (case options of None \<Rightarrow> Map.empty | Some opts \<Rightarrow> opts)"

text \<open>
  The later revision of the provider: \<open>DEFAULT_OPTIONS\<close> (lines 12-16),
  \<open>connectionOptions\<close> (lines 26-29) and the call (lines 41-44). Spreading an undefined
  \<open>options\<close> adds nothing.
\<close>

definition DEFAULT_OPTIONS :: jsObject where
  "DEFAULT_OPTIONS =
     [''reconnect'' \<mapsto> JBool True,
      ''pingInterval'' \<mapsto> JNumber 10000,
      ''maxPingOut'' \<mapsto> JNumber 5]"

definition connectionOptions :: "jsObject option \<Rightarrow> jsObject" where
  "connectionOptions options =
     DEFAULT_OPTIONS ++ (case options of None \<Rightarrow> Map.empty | Some opts \<Rightarrow> opts)"

definition wsconnect_argument_memo :: "string \<Rightarrow> jsObject option \<Rightarrow> jsObject" where
  "wsconnect_argument_memo url options =
     [''servers'' \<mapsto> JString url] ++ connectionOptions options"

text \<open>
  The provider's props. React knows an \<open>options\<close> object by its reference, the number
  paired here with the object's contents; \<open>None\<close> is a prop that is not passed.
\<close>

record providerProps =
  p_url :: string
  p_options :: "(nat \<times> jsObject) option"

text \<open>
  The dependency arrays (\<open>[url, options]\<close>, line 80; \<open>[url, connectionOptions]\<close> in the
  later revision) are compared with \<open>Object.is\<close>. In \<open>NatsProvider.tsx\<close> a prop that is
  not passed is replaced by the default \<open>{}\<close> of line 14, a new object at every render,
  which is the same as no earlier object. In the later revision \<open>useMemo\<close> rebuilds
  \<open>connectionOptions\<close> only when \<open>options\<close> is another value, and a prop that is not passed
  is \<open>undefined\<close> at every render.
\<close>

definition options_same :: "(nat \<times> jsObject) option \<Rightarrow> (nat \<times> jsObject) option \<Rightarrow> bool" where
  "options_same prev new =
     (case prev of
        None \<Rightarrow> False
      | Some (r, _) \<Rightarrow> (case new of None \<Rightarrow> False | Some (r', _) \<Rightarrow> r = r'))"

definition options_same_memo :: "(nat \<times> jsObject) option \<Rightarrow> (nat \<times> jsObject) option \<Rightarrow> bool" where
  "options_same_memo prev new =
     (case prev of
        None \<Rightarrow> (case new of None \<Rightarrow> True | Some (r', _) \<Rightarrow> False)
      | Some (r, _) \<Rightarrow> (case new of None \<Rightarrow> False | Some (r', _) \<Rightarrow> r = r'))"

text \<open>
  The provider's state: the \<open>useState\<close> cell \<open>connection\<close>, the two refs, the
  \<open>isActive\<close> variable of every effect run that got past the guard of line 22, the cleanup
  function React holds (the index of the run whose \<open>isActive\<close> it clears; \<open>None\<close> when the
  last run returned early), the props of the last render, and the calls made on the client
  library, in order.
\<close>

datatype 'c providerCall = Wsconnect jsObject | Close 'c

record 'c provider =
  connection :: "'c option"
  connRef :: "'c option"
  isConnectingRef :: bool
  isActive :: "bool list"
  heldCleanup :: "nat option"
  lastProps :: "providerProps option"
  calls :: "'c providerCall list"

text \<open>
  The effect up to the call, lines 21-37 and 67: nothing is called while a connection
  attempt is under way or a connection is held; otherwise \<open>wsconnect\<close> is called with the
  argument above.
\<close>

definition providerEffect :: "providerProps \<Rightarrow> 'c provider \<Rightarrow> 'c provider" where
  "providerEffect p s =
     (if isConnectingRef s \<or> connRef s \<noteq> None then s\<lparr>heldCleanup := None\<rparr>
      else
        s\<lparr>isConnectingRef := True,
          isActive := isActive s @ [True],
          heldCleanup := Some (length (isActive s)),
          calls := calls s @
            [Wsconnect (wsconnect_argument (p_url p) (map_option snd (p_options p)))]\<rparr>)"

text \<open>The cleanup function, lines 69-79.\<close>

definition providerCleanup :: "'c provider \<Rightarrow> 'c provider" where
  "providerCleanup s =
     (case heldCleanup s of
        None \<Rightarrow> s
      | Some g \<Rightarrow>
          (let s1 = s\<lparr>isActive := (isActive s)[g := False]\<rparr>;
               s2 = (case connRef s1 of
                       None \<Rightarrow> s1
                     | Some c \<Rightarrow>
                         s1\<lparr>calls := calls s1 @ [Close c], connRef := None, connection := None\<rparr>)
           in s2\<lparr>isConnectingRef := False, heldCleanup := None\<rparr>))"

text \<open>
  What the promises of run \<open>g\<close> do when they settle: \<open>wsconnect\<close> resolves with a
  connection (lines 39-57) or rejects (lines 58-64), and the connection's \<open>closed()\<close>
  resolves (lines 43-50).
\<close>

definition resolved :: "nat \<Rightarrow> 'c \<Rightarrow> 'c provider \<Rightarrow> 'c provider" where
  "resolved g newConnection s =
     (if g < length (isActive s) then
        (if isActive s ! g then s\<lparr>connRef := Some newConnection, connection := Some newConnection\<rparr>
         else s\<lparr>calls := calls s @ [Close newConnection]\<rparr>)
      else s)"

definition rejected :: "nat \<Rightarrow> 'c provider \<Rightarrow> 'c provider" where
  "rejected g s =
     (if g < length (isActive s) \<and> isActive s ! g then
        s\<lparr>connection := None, isConnectingRef := False\<rparr>
      else s)"

definition closed :: "nat \<Rightarrow> 'c provider \<Rightarrow> 'c provider" where
  "closed g s =
     (if g < length (isActive s) \<and> isActive s ! g then
        s\<lparr>connRef := None, connection := None, isConnectingRef := False\<rparr>
      else s)"

text \<open>
  A render with props \<open>p\<close>: on mount the effect runs; later React runs the held cleanup
  and the effect when a dependency is not the same as at the last render. \<open>same\<close> is the
  comparison of the options dependency, \<open>options_same\<close> for \<open>NatsProvider.tsx\<close> and
  \<open>options_same_memo\<close> for the later revision.
\<close>

definition providerRender ::
  "((nat \<times> jsObject) option \<Rightarrow> (nat \<times> jsObject) option \<Rightarrow> bool) \<Rightarrow> providerProps
     \<Rightarrow> 'c provider \<Rightarrow> 'c provider" where
  "providerRender same p s =
     (case lastProps s of
        None \<Rightarrow> providerEffect p s
      | Some prev \<Rightarrow>
          if p_url prev = p_url p \<and> same (p_options prev) (p_options p) then s
          else providerEffect p (providerCleanup s))
     \<lparr>lastProps := Some p\<rparr>"

datatype 'c providerEvent =
    PRender providerProps
  | Resolved nat 'c
  | Rejected nat
  | Closed nat

definition providerStep ::
  "((nat \<times> jsObject) option \<Rightarrow> (nat \<times> jsObject) option \<Rightarrow> bool) \<Rightarrow> 'c provider
     \<Rightarrow> 'c providerEvent \<Rightarrow> 'c provider" where
  "providerStep same s ev =
     (case ev of
        PRender p \<Rightarrow> providerRender same p s
      | Resolved g c \<Rightarrow> resolved g c s
      | Rejected g \<Rightarrow> rejected g s
      | Closed g \<Rightarrow> closed g s)"

definition providerInit :: "'c provider" where
  "providerInit =
     \<lparr>connection = None, connRef = None, isConnectingRef = False, isActive = [],
      heldCleanup = None, lastProps = None, calls = []\<rparr>"

definition NatsProvider ::
  "((nat \<times> jsObject) option \<Rightarrow> (nat \<times> jsObject) option \<Rightarrow> bool) \<Rightarrow> 'c providerEvent list
     \<Rightarrow> 'c provider" where
  "NatsProvider same evs = foldl (providerStep same) providerInit evs"

fun is_Wsconnect :: "'c providerCall \<Rightarrow> bool" where
  "is_Wsconnect (Wsconnect arg) = True"
| "is_Wsconnect (Close c) = False"

text \<open>
  An event that is not a render with other props: a settled promise, or a render with the
  props \<open>p\<close>.
\<close>

fun settles_or_renders :: "providerProps \<Rightarrow> 'c providerEvent \<Rightarrow> bool" where
  "settles_or_renders p (PRender p') = (p' = p)"
| "settles_or_renders p ev = True"

section \<open>useNatsStream.ts\<close>

subsection \<open>Inputs and consumer options\<close>

text \<open>
  The fields of a delivered \<open>JsMsg\<close> that the hook reads, the hook's inputs (the
  connection comes from the context, line 28), and the part of
  \<open>OrderedConsumerOptions\<close> that the hook fills in. An absent optional input is \<open>None\<close>.
  The caller's \<open>decode\<close> and \<open>reduce\<close> return \<open>None\<close> when they throw.
\<close>

record 'd jsMsg =
  m_time :: 'd
  m_subject :: string
  m_data :: bytes

datatype subjectFilter = Subject string | Subjects "string list"

datatype deliverPolicy = DeliverAll | DeliverLast | DeliverNew | StartSequence | StartTime | LastPerSubject

record orderedConsumerOptions =
  opt_start_time :: "string option"
  deliver_policy :: "deliverPolicy option"
  filter_subjects :: "subjectFilter option"

record ('c, 'u, 'd) natsStreamOptions =
  in_connection :: "'c option"
  in_stream :: "string option"
  in_decoder :: "bytes \<Rightarrow> 'u option"
  in_reducer :: "('u, 'd) natsMessage list \<Rightarrow> ('u, 'd) natsMessage \<Rightarrow> ('u, 'd) natsMessage list option"
  in_subject :: "subjectFilter option"
  in_opt_start_time :: "'d option"

text \<open>
  JavaScript truthiness of \<open>subject\<close>: absent and the empty string are falsy, every
  array is truthy. A \<open>Date\<close> object is always truthy.
\<close>

definition truthy_subject :: "subjectFilter option \<Rightarrow> bool" where
  "truthy_subject s =
     (case s of None \<Rightarrow> False | Some (Subject str) \<Rightarrow> str \<noteq> [] | Some (Subjects strs) \<Rightarrow> True)"

text \<open>
  Lines 42-51. \<open>toISOString\<close> is the host's \<open>Date.prototype.toISOString\<close>; it throws
  (\<open>None\<close>) on an invalid date, and then no options are built.
\<close>

definition consumerOptions ::
  "('d \<Rightarrow> string option) \<Rightarrow> 'd option \<Rightarrow> subjectFilter option \<Rightarrow> orderedConsumerOptions option" where
  "consumerOptions toISOString start_time subj =
     (let opt = \<lparr>opt_start_time = None, deliver_policy = None, filter_subjects = None\<rparr> in
      case (case start_time of
              Some t \<Rightarrow>
                (case toISOString t of
                   None \<Rightarrow> None
                 | Some isoString \<Rightarrow> Some (opt\<lparr>opt_start_time := Some isoString, deliver_policy := Some StartTime\<rparr>))
            | None \<Rightarrow> Some opt) of
        None \<Rightarrow> None
      | Some opt1 \<Rightarrow>
          Some (if truthy_subject subj then opt1\<lparr>filter_subjects := subj\<rparr> else opt1))"

subsection \<open>The effect and the read loop\<close>

text \<open>
  Each run of the effect that gets past the guards of lines 33-35 creates its own
  variables \<open>isCurrent\<close> and \<open>effectData\<close> and captures the \<open>decoder\<close> and \<open>reducer\<close> it
  was given; \<open>looping\<close> says that its \<open>for await\<close> loop has been entered and not left.
  The hook's state is the \<open>useState\<close> cell \<open>data\<close>, the runs made so far, the cleanup
  function React holds (the index of the run whose \<open>isCurrent\<close> it clears; \<open>None\<close> when
  the last run returned early), and the calls made, in order.
\<close>

record ('u, 'd) effectRun =
  isCurrent :: bool
  effectData :: "('u, 'd) natsMessage list"
  looping :: bool
  decoder_of :: "bytes \<Rightarrow> 'u option"
  reducer_of :: "('u, 'd) natsMessage list \<Rightarrow> ('u, 'd) natsMessage \<Rightarrow> ('u, 'd) natsMessage list option"

datatype ('u, 'd) action =
    SetData "('u, 'd) natsMessage list"
  | ConsumersGet string orderedConsumerOptions
  | Ack "'d jsMsg"
  | DeleteConsumer nat

record ('u, 'd) streamHook =
  data :: "('u, 'd) natsMessage list"
  runs :: "('u, 'd) effectRun list"
  cleanup :: "nat option"
  trace :: "('u, 'd) action list"

text \<open>
  The effect, lines 31-93, up to the call of \<open>js.consumers.get\<close>. \<open>!stream\<close> holds for an
  absent stream and for the empty string. When \<open>toISOString\<close> throws, \<open>setupNats\<close>
  rejects before any consumer exists, and the run never loops.
\<close>

definition effect ::
  "('d \<Rightarrow> string option) \<Rightarrow> ('c, 'u, 'd) natsStreamOptions \<Rightarrow> ('u, 'd) streamHook
     \<Rightarrow> ('u, 'd) streamHook" where
  "effect toISOString i s =
     (let s1 = s\<lparr>data := [], trace := trace s @ [SetData []]\<rparr> in
      if in_connection i = None then s1\<lparr>cleanup := None\<rparr>
      else if in_opt_start_time i = None then s1\<lparr>cleanup := None\<rparr>
      else
        (case in_stream i of
           None \<Rightarrow> s1\<lparr>cleanup := None\<rparr>
         | Some streamName \<Rightarrow>
             if streamName = [] then s1\<lparr>cleanup := None\<rparr>
             else
               (let g = length (runs s1);
                    run = \<lparr>isCurrent = True, effectData = [], looping = False,
                           decoder_of = in_decoder i, reducer_of = in_reducer i\<rparr> in
                case consumerOptions toISOString (in_opt_start_time i) (in_subject i) of
                  None \<Rightarrow> s1\<lparr>runs := runs s1 @ [run], cleanup := Some g\<rparr>
                | Some opt \<Rightarrow>
                    s1\<lparr>runs := runs s1 @ [run\<lparr>looping := True\<rparr>], cleanup := Some g,
                       trace := trace s1 @ [ConsumersGet streamName opt]\<rparr>)))"

text \<open>The cleanup function, lines 91-93.\<close>

definition run_cleanup :: "('u, 'd) streamHook \<Rightarrow> ('u, 'd) streamHook" where
  "run_cleanup s =
     (case cleanup s of
        None \<Rightarrow> s
      | Some g \<Rightarrow> s\<lparr>runs := (runs s)[g := (runs s ! g)\<lparr>isCurrent := False\<rparr>], cleanup := None\<rparr>)"

text \<open>
  One message \<open>m\<close> reaching the read loop of run \<open>g\<close>: the loop body, lines 59-74, and
  the exit through \<open>finally\<close>, lines 75-79, after \<open>break\<close> or after an exception of the
  decoder or the reducer. A run that is not looping receives nothing.
\<close>

definition deliver :: "nat \<Rightarrow> 'd jsMsg \<Rightarrow> ('u, 'd) streamHook \<Rightarrow> ('u, 'd) streamHook" where
  "deliver g m s =
     (if g < length (runs s) \<and> looping (runs s ! g) then
        (let run = runs s ! g;
             thrown = s\<lparr>runs := (runs s)[g := run\<lparr>looping := False\<rparr>],
                        trace := trace s @ [DeleteConsumer g]\<rparr> in
         case decoder_of run (m_data m) of
           None \<Rightarrow> thrown
         | Some v \<Rightarrow>
             (let d = \<lparr>subject = m_subject m, msg_value = v, received = m_time m\<rparr> in
              case reducer_of run (effectData run) d of
                None \<Rightarrow> thrown
              | Some effectData' \<Rightarrow>
                  if \<not> isCurrent run then
                    s\<lparr>runs := (runs s)[g := run\<lparr>effectData := effectData', looping := False\<rparr>],
                      trace := trace s @ [Ack m, DeleteConsumer g]\<rparr>
                  else
                    s\<lparr>runs := (runs s)[g := run\<lparr>effectData := effectData'\<rparr>],
                      data := effectData',
                      trace := trace s @ [Ack m, SetData effectData']\<rparr>))
      else s)"

text \<open>
  What can happen to the hook. \<open>Rerun i\<close>: React runs the previous cleanup and then the
  effect with inputs \<open>i\<close>. \<open>Deliver g m\<close>: the consumer of run \<open>g\<close> hands \<open>m\<close> to its loop.
  \<open>Unmount\<close>: React runs the cleanup. The hook starts with \<open>data = []\<close> (line 29).
\<close>

datatype ('c, 'u, 'd) streamEvent =
    Rerun "('c, 'u, 'd) natsStreamOptions"
  | Deliver nat "'d jsMsg"
  | Unmount

definition hookStep ::
  "('d \<Rightarrow> string option) \<Rightarrow> ('u, 'd) streamHook \<Rightarrow> ('c, 'u, 'd) streamEvent
     \<Rightarrow> ('u, 'd) streamHook" where
  "hookStep toISOString s ev =
     (case ev of
        Rerun i \<Rightarrow> effect toISOString i (run_cleanup s)
      | Deliver g m \<Rightarrow> deliver g m s
      | Unmount \<Rightarrow> run_cleanup s)"

definition hookInit :: "('u, 'd) streamHook" where
  "hookInit = \<lparr>data = [], runs = [], cleanup = None, trace = []\<rparr>"

definition useNatsStream ::
  "('d \<Rightarrow> string option) \<Rightarrow> ('c, 'u, 'd) streamEvent list \<Rightarrow> ('u, 'd) streamHook" where
  "useNatsStream toISOString evs = foldl (hookStep toISOString) hookInit evs"

text \<open>
  The dependency array of line 94 is compared with \<open>Object.is\<close>: a string by its value,
  an object (the decoder, the reducer, a subject array, a \<open>Date\<close>) by its reference; a
  connection stands for its own reference. A render brings the inputs together with the
  references of the objects among them.
\<close>

datatype dependency = Undefined | StringValue string | Reference nat

record ('c, 'u, 'd) renderedInputs =
  inputs :: "('c, 'u, 'd) natsStreamOptions"
  decoder_ref :: nat
  reducer_ref :: nat
  subject_ref :: nat
  opt_start_time_ref :: nat

definition deps ::
  "('c, 'u, 'd) renderedInputs \<Rightarrow>
     'c option \<times> string option \<times> nat \<times> nat \<times> dependency \<times> dependency" where
  "deps r =
     (in_connection (inputs r), in_stream (inputs r), decoder_ref r, reducer_ref r,
      (case in_subject (inputs r) of
         None \<Rightarrow> Undefined
       | Some (Subject str) \<Rightarrow> StringValue str
       | Some (Subjects strs) \<Rightarrow> Reference (subject_ref r)),
      (case in_opt_start_time (inputs r) of
         None \<Rightarrow> Undefined
       | Some t \<Rightarrow> Reference (opt_start_time_ref r)))"

text \<open>
  React's rule: on a render \<open>r\<close> after a render \<open>prev\<close>, the effect re-runs (the held
  cleanup, then the effect) when some dependency is not the same.
\<close>

definition render ::
  "('d \<Rightarrow> string option) \<Rightarrow> ('c, 'u, 'd) renderedInputs \<Rightarrow> ('c, 'u, 'd) renderedInputs
     \<Rightarrow> ('u, 'd) streamHook \<Rightarrow> ('u, 'd) streamHook" where
  "render toISOString prev r s =
     (if deps r = deps prev then s else hookStep toISOString s (Rerun (inputs r)))"

text \<open>
  No object was changed in place between two renders: an object that has the same
  reference at both has the same contents at both.
\<close>

definition unmutated :: "('c, 'u, 'd) renderedInputs \<Rightarrow> ('c, 'u, 'd) renderedInputs \<Rightarrow> bool" where
  "unmutated prev r \<longleftrightarrow>
     (decoder_ref r = decoder_ref prev \<longrightarrow> in_decoder (inputs r) = in_decoder (inputs prev)) \<and>
     (reducer_ref r = reducer_ref prev \<longrightarrow> in_reducer (inputs r) = in_reducer (inputs prev)) \<and>
     (subject_ref r = subject_ref prev \<longrightarrow>
        (\<forall>a b. in_subject (inputs r) = Some (Subjects a) \<longrightarrow>
               in_subject (inputs prev) = Some (Subjects b) \<longrightarrow> a = b)) \<and>
     (opt_start_time_ref r = opt_start_time_ref prev \<longrightarrow>
        (\<forall>a b. in_opt_start_time (inputs r) = Some a \<longrightarrow>
               in_opt_start_time (inputs prev) = Some b \<longrightarrow> a = b))"

text \<open>The messages that a list of events hands to the loop of run \<open>g\<close>, in order.\<close>

fun delivered_to :: "nat \<Rightarrow> ('c, 'u, 'd) streamEvent list \<Rightarrow> 'd jsMsg list" where
  "delivered_to g [] = []"
| "delivered_to g (Deliver g' m # evs) =
     (if g' = g then m # delivered_to g evs else delivered_to g evs)"
| "delivered_to g (ev # evs) = delivered_to g evs"

fun is_Deliver :: "('c, 'u, 'd) streamEvent \<Rightarrow> bool" where
  "is_Deliver (Deliver g m) = True"
| "is_Deliver ev = False"

text \<open>
  Sample inputs for evaluating the stream hook: dates are numbers, \<open>sampleISO\<close> stands for
  \<open>toISOString\<close> on the one date used, the decoder rejects an empty payload, and the
  reducer appends.
\<close>

definition sampleISO :: "nat \<Rightarrow> string option" where
  "sampleISO t = (if t = 0 then Some ''1970-01-01T00:00:00.000Z'' else None)"

definition sampleOptions :: "(unit, bytes, nat) natsStreamOptions" where
  "sampleOptions =
     \<lparr>in_connection = Some (), in_stream = Some ''orders'',
      in_decoder = (\<lambda>b. if b = [] then None else Some b),
      in_reducer = (\<lambda>arr element. Some (arr @ [element])),
      in_subject = Some (Subject ''orders.*''), in_opt_start_time = Some 0\<rparr>"

definition msg :: "nat \<Rightarrow> bytes \<Rightarrow> nat jsMsg" where
  "msg t b = \<lparr>m_time = t, m_subject = ''orders.new'', m_data = b\<rparr>"

definition published :: "nat \<Rightarrow> bytes \<Rightarrow> (bytes, nat) natsMessage" where
  "published t b = \<lparr>subject = ''orders.new'', msg_value = b, received = t\<rparr>"

text \<open>A render of the sample inputs whose decoder object has the reference \<open>n\<close>.\<close>

definition sampleRender :: "nat \<Rightarrow> (unit, bytes, nat) renderedInputs" where
  "sampleRender n =
     \<lparr>inputs = sampleOptions, decoder_ref = n, reducer_ref = 0, subject_ref = 0,
      opt_start_time_ref = 0\<rparr>"

section \<open>Predicates used in the proofs\<close>

text \<open>
  No run is current; at most the run that the held cleanup function points to is current;
  at most run \<open>g\<close> is current. \<open>is_ConsumersGet\<close> picks the calls of
  \<open>js.consumers.get\<close> out of a list of calls.
\<close>

definition no_current :: "('u, 'd) streamHook \<Rightarrow> bool" where
  "no_current s \<longleftrightarrow> (\<forall>g<length (runs s). \<not> isCurrent (runs s ! g))"

definition cleanup_inv :: "('u, 'd) streamHook \<Rightarrow> bool" where
  "cleanup_inv s \<longleftrightarrow>
     (\<forall>g<length (runs s). isCurrent (runs s ! g) \<longrightarrow> cleanup s = Some g) \<and>
     (\<forall>g. cleanup s = Some g \<longrightarrow> g < length (runs s))"

definition only_current :: "nat \<Rightarrow> ('u, 'd) streamHook \<Rightarrow> bool" where
  "only_current g s \<longleftrightarrow>
     g < length (runs s) \<and> (\<forall>g'<length (runs s). g' \<noteq> g \<longrightarrow> \<not> isCurrent (runs s ! g'))"

fun is_ConsumersGet :: "('u, 'd) action \<Rightarrow> bool" where
  "is_ConsumersGet (ConsumersGet name opt) = True"
| "is_ConsumersGet a = False"

section \<open>Evaluation on concrete inputs\<close>

text \<open>The defining equations needed to run the three models on sample inputs.\<close>

lemmas kv_eval =
  useNatsKvTable_def kvInit_def kvStep_def watch_batched_def watch_unbatched_def
  flushUpdates_def newEntry_of_def stableUpsert_def array_sort_def by_key_def
  slice_def slice_from_def table_ok_def entry_def watchEntry_def Let_def

lemmas stream_eval =
  useNatsStream_def hookInit_def hookStep_def effect_def run_cleanup_def deliver_def
  consumerOptions_def truthy_subject_def sampleISO_def sampleOptions_def msg_def published_def
  Let_def

section \<open>Properties of the table hook\<close>

lemma findIndex_ge: "- 1 \<le> findIndex P xs"
  by (induction xs) (auto simp: Let_def)

lemma findIndex_neg_iff: "findIndex P xs < 0 \<longleftrightarrow> (\<forall>x\<in>set xs. \<not> P x)"
  using findIndex_ge [of P]
  by (induction xs) (auto simp: Let_def)

lemma findIndex_first:
  "0 \<le> findIndex P xs \<Longrightarrow>
     nat (findIndex P xs) < length xs \<and> P (xs ! nat (findIndex P xs)) \<and>
     (\<forall>j < nat (findIndex P xs). \<not> P (xs ! j))"
proof (induction xs)
  case Nil
  then show ?case by simp
next
  case (Cons x xs)
  show ?case
  proof (cases "P x")
    case True
    then show ?thesis by simp
  next
    case False
    with Cons.prems have nn: "0 \<le> findIndex P xs"
      by (simp add: Let_def split: if_splits)
    with False have eq: "findIndex P (x # xs) = findIndex P xs + 1"
      by (simp add: Let_def)
    have n: "nat (findIndex P xs + 1) = Suc (nat (findIndex P xs))"
      using nn by simp
    from Cons.IH [OF nn] False show ?thesis
      unfolding eq n by (auto simp: nth_Cons split: nat.splits)
  qed
qed

lemma findIndex_is_first:
  assumes "i < length xs" "P (xs ! i)" "\<forall>j<i. \<not> P (xs ! j)"
  shows "findIndex P xs = int i"
proof -
  have "\<not> findIndex P xs < 0"
    using assms(1,2) by (auto simp: findIndex_neg_iff)
  then have nn: "0 \<le> findIndex P xs" by simp
  from findIndex_first [OF nn] assms
  have "nat (findIndex P xs) = i"
    by (meson linorder_neqE_nat)
  with nn show ?thesis by simp
qed

lemma replace_by_slices:
  "i < length arr \<Longrightarrow> slice arr 0 i @ x # slice_from arr (Suc i) = arr[i := x]"
  by (simp add: slice_def slice_from_def upd_conv_take_nth_drop)

lemma stableUpsert_variants: "stableUpsert lc arr e True = stableUpsert lc arr e False"
  using findIndex_first [of "\<lambda>item. key item = key e" arr]
  by (simp add: stableUpsert_def Let_def replace_by_slices)

lemma stableUpsert_found:
  "0 \<le> findIndex (\<lambda>item. key item = key e) arr \<Longrightarrow>
     stableUpsert lc arr e b = arr[nat (findIndex (\<lambda>item. key item = key e) arr) := e]"
  using findIndex_first [of "\<lambda>item. key item = key e" arr]
  by (simp add: stableUpsert_def Let_def replace_by_slices)

lemma stableUpsert_absent:
  "findIndex (\<lambda>item. key item = key e) arr < 0 \<Longrightarrow>
     stableUpsert lc arr e b = array_sort (by_key lc) (arr @ [e])"
  by (simp add: stableUpsert_def Let_def)

lemma set_insert_sorted: "set (insert_sorted cmp x xs) = insert x (set xs)"
  by (induction xs) auto

lemma distinct_insert_sorted:
  "distinct (map f (insert_sorted cmp x xs)) \<longleftrightarrow> f x \<notin> f ` set xs \<and> distinct (map f xs)"
  by (induction xs) (auto simp: set_insert_sorted)

lemma sorted_insert_sorted:
  assumes "consistent_comparator lc"
  shows "sorted_wrt (\<lambda>a b. lc (key a) (key b) \<le> 0) xs \<Longrightarrow>
         sorted_wrt (\<lambda>a b. lc (key a) (key b) \<le> 0) (insert_sorted (by_key lc) x xs)"
proof (induction xs)
  case Nil
  then show ?case by simp
next
  case (Cons y ys)
  have sg: "\<And>a b. (lc b a < 0) = (0 < lc a b)"
    using assms unfolding consistent_comparator_def by blast
  have tot: "\<And>a b. \<not> lc a b \<le> 0 \<Longrightarrow> lc b a \<le> 0"
    using sg by (simp add: not_le less_imp_le)
  have tr: "\<And>a b c. lc a b \<le> 0 \<Longrightarrow> lc b c \<le> 0 \<Longrightarrow> lc a c \<le> 0"
    using assms unfolding consistent_comparator_def by blast
  show ?case
  proof (cases "lc (key x) (key y) \<le> 0")
    case True
    have "lc (key x) (key z) \<le> 0" if "z \<in> set ys" for z
    proof -
      from Cons.prems that have "lc (key y) (key z) \<le> 0" by simp
      with True show ?thesis by (rule tr)
    qed
    with True Cons.prems show ?thesis
      by (simp add: by_key_def)
  next
    case False
    from tot [OF False] have yx: "lc (key y) (key x) \<le> 0" .
    from Cons.prems have "sorted_wrt (\<lambda>a b. lc (key a) (key b) \<le> 0) ys"
      and ys: "\<forall>z\<in>set ys. lc (key y) (key z) \<le> 0"
      by simp_all
    with Cons.IH yx False show ?thesis
      by (simp add: by_key_def set_insert_sorted)
  qed
qed

lemma set_array_sort: "set (array_sort cmp xs) = set xs"
  by (induction xs) (auto simp: array_sort_def set_insert_sorted)

lemma distinct_array_sort: "distinct (map f (array_sort cmp xs)) = distinct (map f xs)"
proof (induction xs)
  case Nil
  then show ?case by (simp add: array_sort_def)
next
  case (Cons x xs)
  have "array_sort cmp (x # xs) = insert_sorted cmp x (array_sort cmp xs)"
    by (simp add: array_sort_def)
  with Cons show ?case
    by (simp add: distinct_insert_sorted set_array_sort)
qed

lemma sorted_array_sort:
  assumes "consistent_comparator lc"
  shows "sorted_wrt (\<lambda>a b. lc (key a) (key b) \<le> 0) (array_sort (by_key lc) xs)"
proof (induction xs)
  case Nil
  then show ?case by (simp add: array_sort_def)
next
  case (Cons x xs)
  have "array_sort (by_key lc) (x # xs) = insert_sorted (by_key lc) x (array_sort (by_key lc) xs)"
    by (simp add: array_sort_def)
  with Cons sorted_insert_sorted [OF assms] show ?case by simp
qed

lemma map_key_update:
  "i < length arr \<Longrightarrow> key (arr ! i) = key e \<Longrightarrow> map key (arr[i := e]) = map key arr"
  by (simp add: map_update list_update_same_conv)

lemma table_ok_map_key:
  "table_ok lc xs \<longleftrightarrow> sorted_wrt (\<lambda>a b. lc a b \<le> 0) (map key xs) \<and> distinct (map key xs)"
  by (simp add: table_ok_def sorted_wrt_map)

lemma table_ok_keys: "map key xs = map key ys \<Longrightarrow> table_ok lc xs = table_ok lc ys"
  by (simp add: table_ok_map_key)

lemma table_ok_stableUpsert:
  assumes "consistent_comparator lc" "table_ok lc arr"
  shows "table_ok lc (stableUpsert lc arr e b)"
proof (cases "0 \<le> findIndex (\<lambda>item. key item = key e) arr")
  case True
  let ?i = "nat (findIndex (\<lambda>item. key item = key e) arr)"
  from findIndex_first [OF True] have "map key (arr[?i := e]) = map key arr"
    by (simp add: map_key_update)
  then have "table_ok lc (arr[?i := e]) = table_ok lc arr"
    by (rule table_ok_keys)
  with assms(2) have "table_ok lc (arr[?i := e])" by simp
  then show ?thesis
    by (simp only: stableUpsert_found [OF True])
next
  case False
  then have neg: "findIndex (\<lambda>item. key item = key e) arr < 0" by simp
  then have "key e \<notin> key ` set arr"
    by (auto simp: findIndex_neg_iff)
  with assms(2) have "distinct (map key (arr @ [e]))"
    by (auto simp: table_ok_def)
  then have "distinct (map key (array_sort (by_key lc) (arr @ [e])))"
    by (simp only: distinct_array_sort)
  with sorted_array_sort [OF assms(1)] have "table_ok lc (array_sort (by_key lc) (arr @ [e]))"
    unfolding table_ok_def by blast
  then show ?thesis
    by (simp only: stableUpsert_absent [OF neg])
qed

lemma table_ok_filter: "table_ok lc arr \<Longrightarrow> table_ok lc (filter P arr)"
  by (auto simp: table_ok_def sorted_wrt_filter distinct_map_filter)

lemma table_ok_foldl:
  assumes "consistent_comparator lc"
  shows "table_ok lc arr \<Longrightarrow> table_ok lc (foldl (\<lambda>acc newEntry. stableUpsert lc acc newEntry b) arr ups)"
  by (induction ups arbitrary: arr) (simp_all add: table_ok_stableUpsert [OF assms])

lemma table_ok_kvStep:
  assumes "consistent_comparator lc" "table_ok lc (entries s)"
  shows "table_ok lc (entries (kvStep lc decoder enrich s ev))"
proof (cases ev)
  case (Watch r e)
  show ?thesis
  proof (cases "0 < r")
    case True
    with Watch assms(2) show ?thesis
      by (simp add: kvStep_def watch_batched_def table_ok_filter split: option.splits)
  next
    case False
    with Watch assms show ?thesis
      by (simp add: kvStep_def watch_unbatched_def table_ok_filter table_ok_stableUpsert
            split: option.splits)
  qed
next
  case Flush
  with assms show ?thesis
    by (simp add: kvStep_def flushUpdates_def Let_def table_ok_foldl)
qed

lemma table_ok_run:
  assumes "consistent_comparator lc"
  shows "table_ok lc (entries s) \<Longrightarrow> table_ok lc (entries (foldl (kvStep lc decoder enrich) s evs))"
  by (induction evs arbitrary: s) (simp_all add: table_ok_kvStep [OF assms])

lemma codeunit_compare_refl: "codeunit_compare a a = 0"
  by (induction a) auto

lemma codeunit_compare_sign: "(codeunit_compare a b < 0) = (0 < codeunit_compare b a)"
  by (induction a b rule: codeunit_compare.induct) auto

lemma codeunit_compare_Cons_le:
  "codeunit_compare (x # xs) (y # ys) \<le> 0 \<longleftrightarrow>
     (of_char x :: nat) < of_char y \<or>
     ((of_char x :: nat) = of_char y \<and> codeunit_compare xs ys \<le> 0)"
  by auto

lemma codeunit_compare_trans:
  "codeunit_compare a b \<le> 0 \<Longrightarrow> codeunit_compare b c \<le> 0 \<Longrightarrow> codeunit_compare a c \<le> 0"
proof (induction a arbitrary: b c)
  case Nil
  show ?case by (cases c) simp_all
next
  case (Cons x xs)
  from Cons.prems(1) obtain y ys where b: "b = y # ys"
    by (cases b) simp_all
  from Cons.prems(2) b obtain z zs where c: "c = z # zs"
    by (cases c) simp_all
  from Cons.prems(1) b
  have ab: "(of_char x :: nat) < of_char y \<or>
     ((of_char x :: nat) = of_char y \<and> codeunit_compare xs ys \<le> 0)"
    by (simp only: codeunit_compare_Cons_le)
  from Cons.prems(2) b c
  have bc: "(of_char y :: nat) < of_char z \<or>
     ((of_char y :: nat) = of_char z \<and> codeunit_compare ys zs \<le> 0)"
    by (simp only: codeunit_compare_Cons_le)
  have "(of_char x :: nat) < of_char z \<or>
     ((of_char x :: nat) = of_char z \<and> codeunit_compare xs zs \<le> 0)"
  proof (cases "(of_char x :: nat) < of_char z")
    case True
    then show ?thesis by simp
  next
    case False
    with ab bc have e: "(of_char x :: nat) = of_char y" "(of_char y :: nat) = of_char z"
      and l: "codeunit_compare xs ys \<le> 0" "codeunit_compare ys zs \<le> 0"
      by linarith+
    from Cons.IH [OF l] e show ?thesis by simp
  qed
  then show ?case
    unfolding c by (simp only: codeunit_compare_Cons_le)
qed

lemma consistent_codeunit_compare: "consistent_comparator codeunit_compare"
  unfolding consistent_comparator_def
  using codeunit_compare_refl codeunit_compare_sign codeunit_compare_trans by blast

lemma flushUpdates_entries:
  "entries (flushUpdates lc s) =
     foldl (\<lambda>acc newEntry. stableUpsert lc acc newEntry False) (entries s) (pendingUpdates s)"
  by (cases "pendingUpdates s") (simp_all add: flushUpdates_def Let_def stableUpsert_variants)

lemma batched_puts:
  "0 < r \<Longrightarrow> \<forall>e\<in>set es. e_operation e = PUT \<Longrightarrow>
   foldl (kvStep lc decoder enrich) s (map (Watch r) es) =
     s\<lparr>pendingUpdates := pendingUpdates s @ List.map_filter (newEntry_of decoder enrich) es\<rparr>"
proof (induction es arbitrary: s)
  case Nil
  then show ?case by (simp add: List.map_filter_simps)
next
  case (Cons e es)
  then show ?case
    by (simp add: kvStep_def watch_batched_def List.map_filter_simps split: option.splits)
qed

lemma unbatched_puts:
  "r \<le> 0 \<Longrightarrow> \<forall>e\<in>set es. e_operation e = PUT \<Longrightarrow>
   foldl (kvStep lc decoder enrich) s (map (Watch r) es) =
     s\<lparr>entries := foldl (\<lambda>acc newEntry. stableUpsert lc acc newEntry False) (entries s)
                     (List.map_filter (newEntry_of decoder enrich) es)\<rparr>"
proof (induction es arbitrary: s)
  case Nil
  then show ?case by (simp add: List.map_filter_simps)
next
  case (Cons e es)
  then show ?case
    by (simp add: kvStep_def watch_unbatched_def List.map_filter_simps split: option.splits)
qed

subsection \<open>Claims about the table hook\<close>

text \<open>
  Claim C2. Whenever \<open>localeCompare\<close> is a consistent comparator, every \<open>entries\<close>
  array that \<open>useNatsKvTable\<close> produces, after any sequence of watch events and flushes
  in either mode, is ascending by \<open>localeCompare\<close> on the keys and holds at most one entry
  per key; \<open>stableUpsert\<close> preserves this for every array that has it, in place and
  copying, and so does the filtering done for \<open>DEL\<close> and \<open>PURGE\<close>.
\<close>

theorem kvTable_sorted_unique:
  assumes "consistent_comparator lc"
  shows "table_ok lc (entries (useNatsKvTable lc decoder enrich evs)) \<and>
         (table_ok lc arr \<longrightarrow>
            table_ok lc (stableUpsert lc arr newEntry True) \<and>
            table_ok lc (stableUpsert lc arr newEntry False)) \<and>
         (table_ok lc arr \<longrightarrow> table_ok lc (filter (\<lambda>item. key item \<noteq> k) arr))"
proof -
  have "table_ok lc (entries (kvInit :: ('a, 'b) kvTable))"
    by (simp add: kvInit_def table_ok_def)
  then have "table_ok lc (entries (useNatsKvTable lc decoder enrich evs))"
    unfolding useNatsKvTable_def by (rule table_ok_run [OF assms])
  then show ?thesis
    by (simp add: table_ok_stableUpsert [OF assms] table_ok_filter)
qed

text \<open>
  The invariant on a run that mixes both modes, with the code unit collation.
\<close>

theorem kvTable_sorted_unique_witness:
  "table_ok codeunit_compare [entry ''a'' 1, entry ''c'' 2] \<and>
   entries (useNatsKvTable codeunit_compare Some None
         [Watch 50 (watchEntry PUT ''b'' 1), Watch 50 (watchEntry PUT ''a'' 2), Flush,
          Watch 0 (watchEntry PUT ''c'' 3), Watch 0 (watchEntry PUT ''a'' 4),
          Watch 50 (watchEntry DEL ''b'' 0)]) = [entry ''a'' 4, entry ''c'' 3] \<and>
   table_ok codeunit_compare [entry ''a'' 4, entry ''c'' 3] \<and>
   stableUpsert codeunit_compare [entry ''a'' 1, entry ''c'' 2] (entry ''b'' 3) True
     = [entry ''a'' 1, entry ''b'' 3, entry ''c'' 2] \<and>
   table_ok codeunit_compare (stableUpsert codeunit_compare [entry ''a'' 1, entry ''c'' 2] (entry ''b'' 3) True) \<and>
   table_ok codeunit_compare (stableUpsert codeunit_compare [entry ''a'' 1, entry ''c'' 2] (entry ''b'' 3) False) \<and>
   table_ok codeunit_compare (filter (\<lambda>item. key item \<noteq> ''a'') [entry ''a'' 1, entry ''c'' 2])"
proof -
  have ok: "table_ok codeunit_compare [entry ''a'' 1, entry ''c'' 2]"
    by (simp add: kv_eval)
  have run: "entries (useNatsKvTable codeunit_compare Some None
         [Watch 50 (watchEntry PUT ''b'' 1), Watch 50 (watchEntry PUT ''a'' 2), Flush,
          Watch 0 (watchEntry PUT ''c'' 3), Watch 0 (watchEntry PUT ''a'' 4),
          Watch 50 (watchEntry DEL ''b'' 0)]) = [entry ''a'' 4, entry ''c'' 3]"
    by (simp add: kv_eval)
  have ups: "stableUpsert codeunit_compare [entry ''a'' 1, entry ''c'' 2] (entry ''b'' 3) True
     = [entry ''a'' 1, entry ''b'' 3, entry ''c'' 2]"
    by (simp add: kv_eval)
  from kvTable_sorted_unique [OF consistent_codeunit_compare,
      of Some None "[Watch 50 (watchEntry PUT ''b'' 1), Watch 50 (watchEntry PUT ''a'' 2), Flush,
          Watch 0 (watchEntry PUT ''c'' 3), Watch 0 (watchEntry PUT ''a'' 4),
          Watch 50 (watchEntry DEL ''b'' 0)]" "[entry ''a'' 1, entry ''c'' 2]" "entry ''b'' 3" "''a''"]
    ok run ups
  show ?thesis by simp
qed

text \<open>
  Claim C3. For every previous \<open>entries\<close> array and every list of \<open>PUT\<close> events, letting
  a batching loop (\<open>refreshInterval > 0\<close>) collect the events and then flushing once gives
  the same \<open>entries\<close> as a loop without batching (\<open>refreshInterval \<le> 0\<close>) that applies
  each event at once; and one call of \<open>flushUpdates\<close>, which folds \<open>stableUpsert\<close> with
  \<open>inPlace = true\<close> over the pending updates, equals the fold of the copying
  \<open>stableUpsert\<close> over the same updates.
\<close>

theorem batching_equals_unbatched:
  assumes "0 < r" and "r' \<le> 0" and "\<forall>e\<in>set es. e_operation e = PUT"
  shows "entries (foldl (kvStep lc decoder enrich) \<lparr>entries = prev, pendingUpdates = []\<rparr>
                    (map (Watch r) es @ [Flush])) =
         entries (foldl (kvStep lc decoder enrich) \<lparr>entries = prev, pendingUpdates = []\<rparr>
                    (map (Watch r') es))
         \<and> entries (flushUpdates lc \<lparr>entries = prev, pendingUpdates = ups\<rparr>) =
           foldl (\<lambda>acc newEntry. stableUpsert lc acc newEntry False) prev ups"
  using assms
  by (simp add: batched_puts unbatched_puts kvStep_def flushUpdates_entries)

text \<open>
  Three updates, two of them for the same key, on a table that already has an entry.
\<close>

theorem batching_equals_unbatched_witness:
  "(0::int) < 50 \<and> (0::int) \<le> 0 \<and>
   e_operation (watchEntry PUT ''b'' 1) = PUT \<and> e_operation (watchEntry PUT ''a'' 2) = PUT \<and>
   e_operation (watchEntry PUT ''b'' 3) = PUT \<and>
   entries (foldl (kvStep codeunit_compare Some None) \<lparr>entries = [entry ''c'' 0], pendingUpdates = []\<rparr>
      (map (Watch 50) [watchEntry PUT ''b'' 1, watchEntry PUT ''a'' 2, watchEntry PUT ''b'' 3] @ [Flush]))
     = [entry ''a'' 2, entry ''b'' 3, entry ''c'' 0] \<and>
   entries (foldl (kvStep codeunit_compare Some None) \<lparr>entries = [entry ''c'' 0], pendingUpdates = []\<rparr>
      (map (Watch 0) [watchEntry PUT ''b'' 1, watchEntry PUT ''a'' 2, watchEntry PUT ''b'' 3]))
     = [entry ''a'' 2, entry ''b'' 3, entry ''c'' 0]"
proof -
  have puts: "\<forall>e\<in>set [watchEntry PUT ''b'' 1, watchEntry PUT ''a'' 2, watchEntry PUT ''b'' 3].
     e_operation e = PUT"
    by (simp add: watchEntry_def)
  have run: "entries (foldl (kvStep codeunit_compare Some None)
      \<lparr>entries = [entry ''c'' 0], pendingUpdates = []\<rparr>
      (map (Watch 0) [watchEntry PUT ''b'' 1, watchEntry PUT ''a'' 2, watchEntry PUT ''b'' 3]))
     = [entry ''a'' 2, entry ''b'' 3, entry ''c'' 0]"
    by (simp add: kv_eval)
  from batching_equals_unbatched [of 50 0 _ codeunit_compare Some None "[entry ''c'' 0]", OF _ _ puts]
    puts run
  show ?thesis by simp
qed

text \<open>
  \<open>stableUpsert\<close> replaces the entry at the first index at which the key occurs, the
  index that \<open>findIndex\<close> returns.
\<close>

lemma stableUpsert_first_occurrence:
  assumes "i < length arr" and "key (arr ! i) = key newEntry"
    and "\<forall>j<i. key (arr ! j) \<noteq> key newEntry"
  shows "stableUpsert lc arr newEntry inPlace = arr[i := newEntry]"
proof -
  have "findIndex (\<lambda>item. key item = key newEntry) arr = int i"
    using assms by (intro findIndex_is_first) simp_all
  then show ?thesis
    using stableUpsert_found [of newEntry arr lc inPlace] by simp
qed

text \<open>
  Claim C4. The arrays that \<open>stableUpsert\<close> receives hold one entry per key. For every
  such array in which \<open>newEntry.key\<close> occurs at index \<open>i\<close>, \<open>stableUpsert\<close> (in place or
  copying) returns the input with position \<open>i\<close> replaced by \<open>newEntry\<close>: same length,
  \<open>newEntry\<close> at \<open>i\<close>, every other position unchanged.
\<close>

theorem stableUpsert_replaces_at_index:
  assumes "distinct (map key arr)" and "i < length arr" and "key (arr ! i) = key newEntry"
  shows "stableUpsert lc arr newEntry inPlace = arr[i := newEntry] \<and>
         length (stableUpsert lc arr newEntry inPlace) = length arr \<and>
         stableUpsert lc arr newEntry inPlace ! i = newEntry \<and>
         (\<forall>j<length arr. j \<noteq> i \<longrightarrow> stableUpsert lc arr newEntry inPlace ! j = arr ! j)"
proof -
  have "key (arr ! j) \<noteq> key newEntry" if "j < i" for j
  proof
    assume e: "key (arr ! j) = key newEntry"
    from that assms(2) have lj: "j < length (map key arr)" and li: "i < length (map key arr)"
      by simp_all
    from assms(1) lj li have "(map key arr ! j = map key arr ! i) = (j = i)"
      by (rule nth_eq_iff_index_eq)
    moreover from e assms(3) lj li have "map key arr ! j = map key arr ! i"
      by simp
    ultimately have "j = i" by simp
    with that show False by simp
  qed
  then have "\<forall>j<i. key (arr ! j) \<noteq> key newEntry" by blast
  with assms(2,3) have "stableUpsert lc arr newEntry inPlace = arr[i := newEntry]"
    by (rule stableUpsert_first_occurrence)
  with assms(2) show ?thesis by simp
qed

text \<open>
  Replacing the middle entry of a three-entry table, both variants.
\<close>

theorem stableUpsert_replaces_at_index_witness:
  "distinct (map key [entry ''a'' 1, entry ''b'' 2, entry ''c'' 3]) \<and>
   (1::nat) < length [entry ''a'' 1, entry ''b'' 2, entry ''c'' 3] \<and>
   key ([entry ''a'' 1, entry ''b'' 2, entry ''c'' 3] ! 1) = key (entry ''b'' 9) \<and>
   stableUpsert codeunit_compare [entry ''a'' 1, entry ''b'' 2, entry ''c'' 3] (entry ''b'' 9) False
     = [entry ''a'' 1, entry ''b'' 9, entry ''c'' 3] \<and>
   stableUpsert codeunit_compare [entry ''a'' 1, entry ''b'' 2, entry ''c'' 3] (entry ''b'' 9) True
     = [entry ''a'' 1, entry ''b'' 9, entry ''c'' 3]"
proof -
  have h: "distinct (map key [entry ''a'' 1, entry ''b'' 2, entry ''c'' 3])"
    "(1::nat) < length [entry ''a'' 1, entry ''b'' 2, entry ''c'' 3]"
    "key ([entry ''a'' 1, entry ''b'' 2, entry ''c'' 3] ! 1) = key (entry ''b'' 9)"
    by (simp_all add: entry_def)
  from stableUpsert_replaces_at_index [OF h, of codeunit_compare False]
    stableUpsert_replaces_at_index [OF h, of codeunit_compare True] h
  show ?thesis by simp
qed

text \<open>
  What a \<open>DEL\<close> or \<open>PURGE\<close> event for key \<open>k\<close> does, by mode. The new \<open>entries\<close> array is
  the old one without the entries of key \<open>k\<close>, in the same step and without a flush. A
  batching loop (\<open>refreshInterval > 0\<close>) filters the pending updates in the same way; a
  loop without batching leaves them as they are.
\<close>

lemma delete_event_filters:
  assumes "e_operation e = DEL \<or> e_operation e = PURGE"
  shows "entries (kvStep lc decoder enrich s (Watch r e)) =
           filter (\<lambda>item. key item \<noteq> e_key e) (entries s) \<and>
         pendingUpdates (kvStep lc decoder enrich s (Watch r e)) =
           (if 0 < r then filter (\<lambda>item. key item \<noteq> e_key e) (pendingUpdates s)
            else pendingUpdates s) \<and>
         subseq (entries (kvStep lc decoder enrich s (Watch r e))) (entries s) \<and>
         (\<forall>item\<in>set (entries s). key item \<noteq> e_key e \<longrightarrow>
            item \<in> set (entries (kvStep lc decoder enrich s (Watch r e))))"
proof -
  have "e_operation e \<noteq> PUT" using assms by auto
  with assms have
    "entries (kvStep lc decoder enrich s (Watch r e)) =
       filter (\<lambda>item. key item \<noteq> e_key e) (entries s)"
    "pendingUpdates (kvStep lc decoder enrich s (Watch r e)) =
       (if 0 < r then filter (\<lambda>item. key item \<noteq> e_key e) (pendingUpdates s)
        else pendingUpdates s)"
    by (simp_all add: kvStep_def watch_batched_def watch_unbatched_def)
  then show ?thesis by simp
qed

text \<open>
  Claim C9 on a run of the code. A batching loop collects a \<open>PUT\<close> for key \<open>a\<close>; before
  the next flush the effect re-runs with \<open>refreshInterval = 0\<close>, and the loop without
  batching handles a \<open>DEL\<close> for \<open>a\<close>: the update for \<open>a\<close> is still pending, where the
  claim and the batching branch (lines 94-96) remove it. When the effect next runs with a
  positive \<open>refreshInterval\<close>, the \<open>flushUpdates()\<close> of line 77 puts the deleted key into
  \<open>entries\<close>.
\<close>

theorem unbatched_delete_leaves_pending:
  "e_operation (watchEntry DEL ''a'' 0) = DEL \<and>
   key (entry ''a'' 1) = e_key (watchEntry DEL ''a'' 0) \<and>
   useNatsKvTable codeunit_compare Some None [Watch 50 (watchEntry PUT ''a'' 1)]
     = \<lparr>entries = [], pendingUpdates = [entry ''a'' 1]\<rparr> \<and>
   useNatsKvTable codeunit_compare Some None
       [Watch 50 (watchEntry PUT ''a'' 1), Watch 0 (watchEntry DEL ''a'' 0)]
     = \<lparr>entries = [], pendingUpdates = [entry ''a'' 1]\<rparr> \<and>
   useNatsKvTable codeunit_compare Some None
       [Watch 50 (watchEntry PUT ''a'' 1), Watch 0 (watchEntry DEL ''a'' 0), Flush]
     = \<lparr>entries = [entry ''a'' 1], pendingUpdates = []\<rparr> \<and>
   useNatsKvTable codeunit_compare Some None
       [Watch 50 (watchEntry PUT ''a'' 1), Watch 50 (watchEntry DEL ''a'' 0), Flush]
     = \<lparr>entries = [], pendingUpdates = []\<rparr>"
  by (simp add: kv_eval)

section \<open>Properties of the provider\<close>

lemmas provider_eval =
  NatsProvider_def providerInit_def providerStep_def providerRender_def providerEffect_def
  providerCleanup_def resolved_def rejected_def closed_def options_same_def
  options_same_memo_def Let_def

lemma wsconnect_argument_memo_eq:
  "wsconnect_argument_memo url options = wsconnect_argument url options"
  by (rule ext)
    (simp add: wsconnect_argument_memo_def wsconnect_argument_def connectionOptions_def
      DEFAULT_OPTIONS_def map_add_def split: option.splits)

lemma provider_mount:
  "NatsProvider same [PRender p] =
     \<lparr>connection = None, connRef = None, isConnectingRef = True, isActive = [True],
      heldCleanup = Some 0, lastProps = Some p,
      calls = [Wsconnect (wsconnect_argument (p_url p) (map_option snd (p_options p)))]\<rparr>"
  by (simp add: NatsProvider_def providerInit_def providerStep_def providerRender_def
      providerEffect_def)

lemma provider_quiet_step:
  assumes "lastProps s = Some p" and "same (p_options p) (p_options p)"
    and "settles_or_renders p ev"
  shows "lastProps (providerStep same s ev) = Some p \<and>
         filter is_Wsconnect (calls (providerStep same s ev)) = filter is_Wsconnect (calls s)"
proof (cases ev)
  case (PRender p')
  with assms(3) have "p' = p" by simp
  with PRender assms(1,2) show ?thesis
    by (simp add: providerStep_def providerRender_def)
next
  case (Resolved g c)
  with assms(1) show ?thesis
    by (simp add: providerStep_def resolved_def)
next
  case (Rejected g)
  with assms(1) show ?thesis
    by (simp add: providerStep_def rejected_def)
next
  case (Closed g)
  with assms(1) show ?thesis
    by (simp add: providerStep_def closed_def)
qed

lemma provider_quiet_run:
  assumes "same (p_options p) (p_options p)"
  shows "lastProps s = Some p \<Longrightarrow> \<forall>ev\<in>set evs. settles_or_renders p ev \<Longrightarrow>
         filter is_Wsconnect (calls (foldl (providerStep same) s evs)) =
         filter is_Wsconnect (calls s)"
proof (induction evs arbitrary: s)
  case Nil
  then show ?case by simp
next
  case (Cons ev evs)
  from Cons.prems(2) have q: "settles_or_renders p ev"
    and rest: "\<forall>ev\<in>set evs. settles_or_renders p ev"
    by simp_all
  from provider_quiet_step [where same = same and p = p, OF Cons.prems(1) assms q]
  have l: "lastProps (providerStep same s ev) = Some p"
    and c: "filter is_Wsconnect (calls (providerStep same s ev)) = filter is_Wsconnect (calls s)"
    by simp_all
  from Cons.IH [OF l rest] c show ?case by simp
qed

text \<open>
  Claim C7, with \<open>servers\<close> among the entries that \<open>options\<close> can replace, and for renders
  that keep the props. The argument of \<open>wsconnect\<close> takes every entry of the \<open>options\<close>
  prop as it is; for each of \<open>servers\<close>, \<open>reconnect\<close>, \<open>pingInterval\<close> and \<open>maxPingOut\<close>
  that \<open>options\<close> does not have, it holds the \<open>url\<close> prop, \<open>true\<close>, \<open>10000\<close> and \<open>5\<close>;
  without an \<open>options\<close> prop it is exactly these four entries, and the later revision
  builds the same argument. On mount the provider calls \<open>wsconnect\<close> once with this
  argument. As long as every render brings the same \<open>url\<close> and an \<open>options\<close> dependency
  that is the same as before, the provider makes no other call of \<open>wsconnect\<close>, whatever
  the connection does (it resolves, fails or closes): reconnecting is then left to the
  client library and its \<open>reconnect\<close> option.
\<close>

theorem provider_connection_setup:
  fixes evs :: "'c providerEvent list"
  shows
  "(opts k = Some v \<longrightarrow> wsconnect_argument url (Some opts) k = Some v) \<and>
   (opts ''servers'' = None \<longrightarrow> wsconnect_argument url (Some opts) ''servers'' = Some (JString url)) \<and>
   (opts ''reconnect'' = None \<longrightarrow> wsconnect_argument url (Some opts) ''reconnect'' = Some (JBool True)) \<and>
   (opts ''pingInterval'' = None \<longrightarrow>
      wsconnect_argument url (Some opts) ''pingInterval'' = Some (JNumber 10000)) \<and>
   (opts ''maxPingOut'' = None \<longrightarrow> wsconnect_argument url (Some opts) ''maxPingOut'' = Some (JNumber 5)) \<and>
   wsconnect_argument url None =
     [''servers'' \<mapsto> JString url, ''reconnect'' \<mapsto> JBool True,
      ''pingInterval'' \<mapsto> JNumber 10000, ''maxPingOut'' \<mapsto> JNumber 5] \<and>
   wsconnect_argument_memo url options = wsconnect_argument url options \<and>
   calls (NatsProvider same ([PRender p] :: 'c providerEvent list)) =
     [Wsconnect (wsconnect_argument (p_url p) (map_option snd (p_options p)))] \<and>
   (same (p_options p) (p_options p) \<and> (\<forall>ev\<in>set evs. settles_or_renders p ev) \<longrightarrow>
      filter is_Wsconnect (calls (NatsProvider same (PRender p # evs))) =
        [Wsconnect (wsconnect_argument (p_url p) (map_option snd (p_options p)))])"
proof -
  have over: "opts k = Some v \<longrightarrow> wsconnect_argument url (Some opts) k = Some v"
    by (simp add: wsconnect_argument_def map_add_def)
  have dflt: "opts k = None \<Longrightarrow> wsconnect_argument url (Some opts) k =
      [''servers'' \<mapsto> JString url, ''reconnect'' \<mapsto> JBool True,
       ''pingInterval'' \<mapsto> JNumber 10000, ''maxPingOut'' \<mapsto> JNumber 5] k" for k
    by (simp add: wsconnect_argument_def map_add_def)
  have none: "wsconnect_argument url None =
     [''servers'' \<mapsto> JString url, ''reconnect'' \<mapsto> JBool True,
      ''pingInterval'' \<mapsto> JNumber 10000, ''maxPingOut'' \<mapsto> JNumber 5]"
    by (simp add: wsconnect_argument_def)
  have mount: "calls (NatsProvider same ([PRender p] :: 'c providerEvent list)) =
     [Wsconnect (wsconnect_argument (p_url p) (map_option snd (p_options p)))]"
    by (simp add: provider_mount)
  have quiet: "filter is_Wsconnect (calls (NatsProvider same (PRender p # evs))) =
        [Wsconnect (wsconnect_argument (p_url p) (map_option snd (p_options p)))]"
    if s: "same (p_options p) (p_options p)" and q: "\<forall>ev\<in>set evs. settles_or_renders p ev"
  proof -
    let ?m = "NatsProvider same ([PRender p] :: 'c providerEvent list)"
    have l: "lastProps ?m = Some p" by (simp add: provider_mount)
    have "NatsProvider same (PRender p # evs) = foldl (providerStep same) ?m evs"
      by (simp add: NatsProvider_def)
    with provider_quiet_run [where same = same and p = p, OF s l q] mount show ?thesis by simp
  qed
  from over none mount quiet show ?thesis
    by (simp add: dflt wsconnect_argument_memo_eq)
qed

text \<open>
  Options that replace \<open>reconnect\<close> and add a \<open>name\<close>, passed as the same object at every
  render, while the connection resolves and later closes.
\<close>

theorem provider_connection_setup_witness:
  "[''reconnect'' \<mapsto> JBool False, ''name'' \<mapsto> JString ''ui''] ''reconnect'' = Some (JBool False) \<and>
   [''reconnect'' \<mapsto> JBool False, ''name'' \<mapsto> JString ''ui''] ''servers'' = None \<and>
   wsconnect_argument ''ws://localhost:4222''
     (Some [''reconnect'' \<mapsto> JBool False, ''name'' \<mapsto> JString ''ui'']) ''reconnect''
     = Some (JBool False) \<and>
   wsconnect_argument ''ws://localhost:4222''
     (Some [''reconnect'' \<mapsto> JBool False, ''name'' \<mapsto> JString ''ui'']) ''servers''
     = Some (JString ''ws://localhost:4222'') \<and>
   wsconnect_argument ''ws://localhost:4222''
     (Some [''reconnect'' \<mapsto> JBool False, ''name'' \<mapsto> JString ''ui'']) ''pingInterval''
     = Some (JNumber 10000) \<and>
   wsconnect_argument ''ws://localhost:4222''
     (Some [''reconnect'' \<mapsto> JBool False, ''name'' \<mapsto> JString ''ui'']) ''maxPingOut''
     = Some (JNumber 5) \<and>
   options_same
     (Some (1, [''reconnect'' \<mapsto> JBool False, ''name'' \<mapsto> JString ''ui'']))
     (Some (1, [''reconnect'' \<mapsto> JBool False, ''name'' \<mapsto> JString ''ui''])) \<and>
   filter is_Wsconnect (calls (NatsProvider options_same
     (PRender \<lparr>p_url = ''ws://localhost:4222'',
               p_options = Some (1, [''reconnect'' \<mapsto> JBool False, ''name'' \<mapsto> JString ''ui''])\<rparr> #
      [Resolved 0 (7::nat),
       PRender \<lparr>p_url = ''ws://localhost:4222'',
                p_options = Some (1, [''reconnect'' \<mapsto> JBool False, ''name'' \<mapsto> JString ''ui''])\<rparr>,
       Closed 0,
       PRender \<lparr>p_url = ''ws://localhost:4222'',
                p_options = Some (1, [''reconnect'' \<mapsto> JBool False, ''name'' \<mapsto> JString ''ui''])\<rparr>])))
   = [Wsconnect (wsconnect_argument ''ws://localhost:4222''
        (Some [''reconnect'' \<mapsto> JBool False, ''name'' \<mapsto> JString ''ui'']))]"
proof -
  let ?o = "[''reconnect'' \<mapsto> JBool False, ''name'' \<mapsto> JString ''ui'']"
  let ?p = "\<lparr>p_url = ''ws://localhost:4222'', p_options = Some (1, ?o)\<rparr>"
  let ?post = "[Resolved 0 (7::nat), PRender ?p, Closed 0, PRender ?p]"
  have o1: "?o ''reconnect'' = Some (JBool False)" and o2: "?o ''servers'' = None"
    and o3: "?o ''pingInterval'' = None" and o4: "?o ''maxPingOut'' = None"
    by simp_all
  have s: "options_same (Some (1, ?o)) (Some (1, ?o))"
    by (simp add: options_same_def)
  then have s': "options_same (p_options ?p) (p_options ?p)"
    by simp
  have q: "\<forall>ev\<in>set ?post. settles_or_renders ?p ev"
    by simp
  note T = provider_connection_setup [where opts = ?o and k = "''reconnect''"
      and v = "JBool False" and url = "''ws://localhost:4222''" and same = options_same
      and p = ?p and evs = ?post]
  from T o1 have a: "wsconnect_argument ''ws://localhost:4222'' (Some ?o) ''reconnect''
     = Some (JBool False)"
    by blast
  from T o2 have b: "wsconnect_argument ''ws://localhost:4222'' (Some ?o) ''servers''
     = Some (JString ''ws://localhost:4222'')"
    by blast
  from T o3 have c: "wsconnect_argument ''ws://localhost:4222'' (Some ?o) ''pingInterval''
     = Some (JNumber 10000)"
    by blast
  from T o4 have d: "wsconnect_argument ''ws://localhost:4222'' (Some ?o) ''maxPingOut''
     = Some (JNumber 5)"
    by blast
  from T s' q have "filter is_Wsconnect (calls (NatsProvider options_same (PRender ?p # ?post))) =
     [Wsconnect (wsconnect_argument (p_url ?p) (map_option snd (p_options ?p)))]"
    by blast
  then have e: "filter is_Wsconnect (calls (NatsProvider options_same (PRender ?p # ?post))) =
     [Wsconnect (wsconnect_argument ''ws://localhost:4222'' (Some ?o))]"
    by simp
  from o1 o2 a b c d s e show ?thesis by blast
qed

text \<open>
  The claim fails in two places. \<open>servers\<close> is not always the \<open>url\<close> prop: an \<open>options\<close>
  prop with a \<open>servers\<close> entry replaces it, since \<open>options\<close> is spread last. And the
  provider of \<open>NatsProvider.tsx\<close> does reconnect by itself: when the \<open>options\<close> prop is not
  passed, the render that follows the connection brings a new default \<open>{}\<close>, so the
  connection is closed and \<open>wsconnect\<close> is called again; the later revision makes one call
  on the same events.
\<close>

theorem servers_override_and_rerender_reconnect_counterexample:
  "calls (NatsProvider options_same
      ([PRender \<lparr>p_url = ''ws://a'', p_options = Some (1, [''servers'' \<mapsto> JString ''ws://b''])\<rparr>]
       :: nat providerEvent list)) =
     [Wsconnect (wsconnect_argument ''ws://a'' (Some [''servers'' \<mapsto> JString ''ws://b'']))] \<and>
   wsconnect_argument ''ws://a'' (Some [''servers'' \<mapsto> JString ''ws://b'']) ''servers''
     = Some (JString ''ws://b'') \<and>
   wsconnect_argument ''ws://a'' (Some [''servers'' \<mapsto> JString ''ws://b'']) ''servers''
     \<noteq> Some (JString ''ws://a'') \<and>
   calls (NatsProvider options_same
      [PRender \<lparr>p_url = ''ws://a'', p_options = None\<rparr>, Resolved 0 (7::nat),
       PRender \<lparr>p_url = ''ws://a'', p_options = None\<rparr>]) =
     [Wsconnect (wsconnect_argument ''ws://a'' None), Close 7,
      Wsconnect (wsconnect_argument ''ws://a'' None)] \<and>
   calls (NatsProvider options_same_memo
      [PRender \<lparr>p_url = ''ws://a'', p_options = None\<rparr>, Resolved 0 (7::nat),
       PRender \<lparr>p_url = ''ws://a'', p_options = None\<rparr>]) =
     [Wsconnect (wsconnect_argument ''ws://a'' None)]"
proof -
  have a: "wsconnect_argument ''ws://a'' (Some [''servers'' \<mapsto> JString ''ws://b'']) ''servers''
     = Some (JString ''ws://b'')"
    by (simp add: wsconnect_argument_def)
  show ?thesis
    unfolding a by (simp add: provider_eval)
qed

section \<open>Properties of the stream hook\<close>

lemma deliver_length [simp]: "length (runs (deliver g m s)) = length (runs s)"
  by (simp add: deliver_def Let_def split: option.splits)

lemma deliver_cleanup [simp]: "cleanup (deliver g m s) = cleanup s"
  by (simp add: deliver_def Let_def split: option.splits)

lemma deliver_other: "g' \<noteq> g \<Longrightarrow> runs (deliver g m s) ! g' = runs s ! g'"
  by (simp add: deliver_def Let_def split: option.splits)

lemma deliver_isCurrent:
  "g' < length (runs s) \<Longrightarrow> isCurrent (runs (deliver g m s) ! g') = isCurrent (runs s ! g')"
  by (cases "g' = g") (simp_all add: deliver_def Let_def split: option.splits)

lemma deliver_data_not_current:
  "\<not> (g < length (runs s) \<and> isCurrent (runs s ! g)) \<Longrightarrow> data (deliver g m s) = data s"
  by (auto simp: deliver_def Let_def split: option.splits)

lemma deliver_view:
  assumes "g < length (runs s)" "g' < length (runs s')" "runs s ! g = runs s' ! g'"
    and "data s = data s'"
  shows "data (deliver g m s) = data (deliver g' m s') \<and>
         runs (deliver g m s) ! g = runs (deliver g' m s') ! g'"
  using assms by (simp add: deliver_def Let_def split: option.splits)

lemma cleanup_inv_init: "cleanup_inv hookInit"
  by (simp add: cleanup_inv_def hookInit_def)

lemma run_cleanup_length [simp]: "length (runs (run_cleanup s)) = length (runs s)"
  by (simp add: run_cleanup_def split: option.splits)

lemma run_cleanup_data [simp]: "data (run_cleanup s) = data s"
  by (simp add: run_cleanup_def split: option.splits)

lemma run_cleanup_trace [simp]: "trace (run_cleanup s) = trace s"
  by (simp add: run_cleanup_def split: option.splits)

lemma run_cleanup_cleanup [simp]: "cleanup (run_cleanup s) = None"
  by (simp add: run_cleanup_def split: option.splits)

lemma cleanup_invD1:
  "cleanup_inv s \<Longrightarrow> g < length (runs s) \<Longrightarrow> isCurrent (runs s ! g) \<Longrightarrow> cleanup s = Some g"
  unfolding cleanup_inv_def by blast

lemma cleanup_invD2: "cleanup_inv s \<Longrightarrow> cleanup s = Some g \<Longrightarrow> g < length (runs s)"
  unfolding cleanup_inv_def by blast

lemma no_current_run_cleanup:
  assumes "cleanup_inv s"
  shows "no_current (run_cleanup s)"
proof (cases "cleanup s")
  case None
  have "\<not> isCurrent (runs s ! g)" if "g < length (runs s)" for g
  proof
    assume "isCurrent (runs s ! g)"
    from cleanup_invD1 [OF assms that this] None show False by simp
  qed
  then have "no_current s"
    unfolding no_current_def by blast
  moreover from None have "run_cleanup s = s"
    by (simp add: run_cleanup_def)
  ultimately show ?thesis by simp
next
  case (Some g0)
  have "\<not> isCurrent ((runs s)[g0 := (runs s ! g0)\<lparr>isCurrent := False\<rparr>] ! g)"
    if "g < length (runs s)" for g
  proof (cases "g = g0")
    case True
    with that show ?thesis by simp
  next
    case False
    have "\<not> isCurrent (runs s ! g)"
    proof
      assume "isCurrent (runs s ! g)"
      from cleanup_invD1 [OF assms that this] Some False show False by simp
    qed
    with False show ?thesis by simp
  qed
  with Some show ?thesis
    by (simp add: no_current_def run_cleanup_def)
qed

lemma no_current_imp_inv: "no_current s \<Longrightarrow> cleanup s = None \<Longrightarrow> cleanup_inv s"
  by (simp add: no_current_def cleanup_inv_def)

lemma effect_data [simp]: "data (effect toISOString i s) = []"
  by (simp add: effect_def Let_def split: option.splits)

lemma cleanup_inv_deliver:
  assumes "cleanup_inv s"
  shows "cleanup_inv (deliver g m s)"
proof -
  have "cleanup (deliver g m s) = Some g'"
    if "g' < length (runs (deliver g m s))" "isCurrent (runs (deliver g m s) ! g')" for g'
  proof -
    from that have "g' < length (runs s)" "isCurrent (runs s ! g')"
      by (simp_all add: deliver_isCurrent)
    from cleanup_invD1 [OF assms this] show ?thesis by simp
  qed
  moreover have "g' < length (runs (deliver g m s))" if "cleanup (deliver g m s) = Some g'" for g'
  proof -
    from that have "cleanup s = Some g'" by simp
    from cleanup_invD2 [OF assms this] show ?thesis by simp
  qed
  ultimately show ?thesis
    unfolding cleanup_inv_def by blast
qed

lemma no_current_deliver: "no_current s \<Longrightarrow> no_current (deliver g m s)"
  by (simp add: no_current_def deliver_isCurrent)

lemma only_current_deliver: "only_current g s \<Longrightarrow> only_current g (deliver g' m s)"
  by (simp add: only_current_def deliver_isCurrent)

lemma effect_skipped:
  "in_connection i = None \<or> in_opt_start_time i = None \<or> in_stream i = None \<Longrightarrow>
   effect toISOString i s = s\<lparr>data := [], trace := trace s @ [SetData []], cleanup := None\<rparr>"
  by (auto simp: effect_def Let_def split: option.splits)

lemma consumerOptions_start_time:
  "toISOString t = Some isoString \<Longrightarrow>
   consumerOptions toISOString (Some t) subj =
     Some \<lparr>opt_start_time = Some isoString, deliver_policy = Some StartTime,
           filter_subjects = (if truthy_subject subj then subj else None)\<rparr>"
  by (simp add: consumerOptions_def)

lemma effect_started:
  assumes "in_connection i = Some c" "in_opt_start_time i = Some t" "in_stream i = Some name"
    and "name \<noteq> []" "toISOString t = Some isoString"
  shows "effect toISOString i s =
     s\<lparr>data := [],
       runs := runs s @ [\<lparr>isCurrent = True, effectData = [], looping = True,
                          decoder_of = in_decoder i, reducer_of = in_reducer i\<rparr>],
       cleanup := Some (length (runs s)),
       trace := trace s @ [SetData [], ConsumersGet name
          \<lparr>opt_start_time = Some isoString, deliver_policy = Some StartTime,
            filter_subjects = (if truthy_subject (in_subject i) then in_subject i else None)\<rparr>]\<rparr>"
  using assms
  by (simp add: effect_def Let_def consumerOptions_start_time)

lemma effect_shape:
  "\<exists>rs. (\<forall>s :: ('u, 'd) streamHook.
            runs (effect toISOString i s) = runs s @ rs \<and>
            cleanup (effect toISOString i s) = (if rs = [] then None else Some (length (runs s)))) \<and>
        (rs = [] \<or> (\<exists>r. rs = [r] \<and> isCurrent r \<and> effectData r = [] \<and>
            decoder_of r = in_decoder i \<and> reducer_of r = in_reducer i))"
proof (cases "in_connection i = None \<or> in_opt_start_time i = None \<or> in_stream i = None \<or> in_stream i = Some []")
  case True
  then have "\<forall>s :: ('u, 'd) streamHook. runs (effect toISOString i s) = runs s @ [] \<and>
     cleanup (effect toISOString i s) = None"
    by (auto simp: effect_def Let_def split: option.splits)
  then show ?thesis by auto
next
  case False
  then obtain name where n: "in_stream i = Some name" "name \<noteq> []"
    and c: "in_connection i \<noteq> None" "in_opt_start_time i \<noteq> None"
    by (cases "in_stream i") auto
  let ?r = "\<lparr>isCurrent = True, effectData = [], looping = False,
             decoder_of = in_decoder i, reducer_of = in_reducer i\<rparr>"
  show ?thesis
  proof (cases "consumerOptions toISOString (in_opt_start_time i) (in_subject i)")
    case None
    with n c have "\<forall>s :: ('u, 'd) streamHook. runs (effect toISOString i s) = runs s @ [?r] \<and>
       cleanup (effect toISOString i s) = Some (length (runs s))"
      by (simp add: effect_def Let_def)
    then show ?thesis
      by (intro exI [of _ "[?r]"]) simp
  next
    case (Some opt)
    with n c have "\<forall>s :: ('u, 'd) streamHook.
       runs (effect toISOString i s) = runs s @ [?r\<lparr>looping := True\<rparr>] \<and>
       cleanup (effect toISOString i s) = Some (length (runs s))"
      by (simp add: effect_def Let_def)
    then show ?thesis
      by (intro exI [of _ "[?r\<lparr>looping := True\<rparr>]"]) simp
  qed
qed

lemma no_current_data:
  "no_current s \<Longrightarrow> \<forall>ev\<in>set evs. is_Deliver ev \<Longrightarrow>
   data (foldl (hookStep toISOString) s evs) = data s"
proof (induction evs arbitrary: s)
  case Nil
  then show ?case by simp
next
  case (Cons ev evs)
  from Cons.prems(2) obtain g m where ev: "ev = Deliver g m"
    by (cases ev) simp_all
  from Cons.prems(1) have "\<not> (g < length (runs s) \<and> isCurrent (runs s ! g))"
    unfolding no_current_def by blast
  then have d: "data (deliver g m s) = data s"
    by (rule deliver_data_not_current)
  from Cons.prems(1) have "no_current (deliver g m s)"
    by (rule no_current_deliver)
  from Cons.IH [OF this] Cons.prems(2) d ev show ?case
    by (simp add: hookStep_def)
qed

lemma same_view_data:
  assumes "only_current g s" "g' < length (runs s')" "runs s ! g = runs s' ! g'"
    and "data s = data s'" and "\<forall>ev\<in>set evs. is_Deliver ev"
  shows "data (foldl (hookStep toISOString) s evs) =
         data (foldl (hookStep toISOString) s' (map (Deliver g') (delivered_to g evs)))"
  using assms
proof (induction evs arbitrary: s s')
  case Nil
  then show ?case by simp
next
  case (Cons ev evs)
  from Cons.prems(5) obtain h m where ev: "ev = Deliver h m"
    by (cases ev) simp_all
  from Cons.prems(5) have rest: "\<forall>ev\<in>set evs. is_Deliver ev" by simp
  from Cons.prems(1) have g: "g < length (runs s)"
    by (simp add: only_current_def)
  have oc: "only_current g (deliver h m s)"
    using Cons.prems(1) by (rule only_current_deliver)
  show ?case
  proof (cases "h = g")
    case True
    from deliver_view [OF g Cons.prems(2) Cons.prems(3) Cons.prems(4), of m]
    have v: "data (deliver g m s) = data (deliver g' m s')"
      "runs (deliver g m s) ! g = runs (deliver g' m s') ! g'"
      by simp_all
    have l: "g' < length (runs (deliver g' m s'))"
      using Cons.prems(2) by simp
    from Cons.IH [OF oc [unfolded True] l v(2) v(1) rest] ev True show ?thesis
      by (simp add: hookStep_def)
  next
    case False
    from Cons.prems(1) False have "\<not> (h < length (runs s) \<and> isCurrent (runs s ! h))"
      unfolding only_current_def by blast
    then have d: "data (deliver h m s) = data s'"
      using Cons.prems(4) by (simp add: deliver_data_not_current)
    from False have r: "runs (deliver h m s) ! g = runs s' ! g'"
      using Cons.prems(3) by (simp add: deliver_other)
    from Cons.IH [OF oc Cons.prems(2) r d rest] ev False show ?thesis
      by (simp add: hookStep_def)
  qed
qed

lemma cleanup_inv_effect:
  assumes "no_current s"
  shows "cleanup_inv (effect toISOString i s)"
proof -
  from effect_shape [of toISOString i] obtain rs where
    sh: "runs (effect toISOString i s) = runs s @ rs"
      "cleanup (effect toISOString i s) = (if rs = [] then None else Some (length (runs s)))"
    and rs: "rs = [] \<or> (\<exists>r. rs = [r])"
    by blast
  have "cleanup (effect toISOString i s) = Some g"
    if "g < length (runs (effect toISOString i s))" "isCurrent (runs (effect toISOString i s) ! g)" for g
  proof (cases "g < length (runs s)")
    case True
    with that(2) sh(1) have "isCurrent (runs s ! g)"
      by (simp add: nth_append)
    with assms True show ?thesis
      unfolding no_current_def by blast
  next
    case False
    with that(1) sh rs show ?thesis by auto
  qed
  moreover have "g < length (runs (effect toISOString i s))"
    if "cleanup (effect toISOString i s) = Some g" for g
    using that sh rs by (auto split: if_splits)
  ultimately show ?thesis
    unfolding cleanup_inv_def by blast
qed

lemma cleanup_inv_hookStep:
  assumes "cleanup_inv s"
  shows "cleanup_inv (hookStep toISOString s ev)"
proof (cases ev)
  case (Rerun i)
  from assms have "no_current (run_cleanup s)"
    by (rule no_current_run_cleanup)
  then have "cleanup_inv (effect toISOString i (run_cleanup s))"
    by (rule cleanup_inv_effect)
  with Rerun show ?thesis by (simp add: hookStep_def)
next
  case (Deliver g m)
  with assms show ?thesis by (simp add: hookStep_def cleanup_inv_deliver)
next
  case Unmount
  from assms have "no_current (run_cleanup s)"
    by (rule no_current_run_cleanup)
  then have "cleanup_inv (run_cleanup s)"
    by (rule no_current_imp_inv) simp
  with Unmount show ?thesis by (simp add: hookStep_def)
qed

lemma cleanup_inv_foldl:
  "cleanup_inv s \<Longrightarrow> cleanup_inv (foldl (hookStep toISOString) s evs)"
  by (induction evs arbitrary: s) (simp_all add: cleanup_inv_hookStep)

lemma cleanup_inv_reachable: "cleanup_inv (useNatsStream toISOString evs)"
  unfolding useNatsStream_def by (rule cleanup_inv_foldl) (rule cleanup_inv_init)

lemma hookStep_Deliver: "hookStep toISOString s (Deliver g m) = deliver g m s"
  by (simp add: hookStep_def)

lemma hookStep_Rerun: "hookStep toISOString s (Rerun i) = effect toISOString i (run_cleanup s)"
  by (simp add: hookStep_def)

lemma deliver_current:
  assumes "g < length (runs s)" "looping (runs s ! g)" "isCurrent (runs s ! g)"
    and "decoder_of (runs s ! g) (m_data m) = Some v"
    and "reducer_of (runs s ! g) (effectData (runs s ! g))
           \<lparr>subject = m_subject m, msg_value = v, received = m_time m\<rparr> = Some ed"
  shows "deliver g m s =
     s\<lparr>runs := (runs s)[g := (runs s ! g)\<lparr>effectData := ed\<rparr>], data := ed,
       trace := trace s @ [Ack m, SetData ed]\<rparr>"
  using assms by (simp add: deliver_def Let_def)

lemma deliver_cancelled:
  assumes "g < length (runs s)" "looping (runs s ! g)" "\<not> isCurrent (runs s ! g)"
    and "decoder_of (runs s ! g) (m_data m) = Some v"
    and "reducer_of (runs s ! g) (effectData (runs s ! g))
           \<lparr>subject = m_subject m, msg_value = v, received = m_time m\<rparr> = Some ed"
  shows "deliver g m s =
     s\<lparr>runs := (runs s)[g := (runs s ! g)\<lparr>effectData := ed, looping := False\<rparr>],
       trace := trace s @ [Ack m, DeleteConsumer g]\<rparr>"
  using assms by (simp add: deliver_def Let_def)

lemma current_loop_fold:
  assumes "only_current g s" "isCurrent (runs s ! g)" "looping (runs s ! g)"
    and "data s = effectData (runs s ! g)"
    and "decoder_of (runs s ! g) = decoder" "reducer_of (runs s ! g) = reducer"
    and "\<forall>ev\<in>set evs. is_Deliver ev"
    and "\<forall>m\<in>set (delivered_to g evs). decoder (m_data m) = Some (dec (m_data m))"
    and red: "\<forall>acc d. reducer acc d = Some (red acc d)"
  shows "data (foldl (hookStep toISOString) s evs) =
         foldl red (data s)
           (map (\<lambda>m. \<lparr>subject = m_subject m, msg_value = dec (m_data m), received = m_time m\<rparr>)
              (delivered_to g evs))"
  using assms(1-8)
proof (induction evs arbitrary: s)
  case Nil
  then show ?case by simp
next
  case (Cons ev evs)
  from Cons.prems(7) obtain h m where ev: "ev = Deliver h m"
    by (cases ev) simp_all
  from Cons.prems(7) have rest: "\<forall>ev\<in>set evs. is_Deliver ev" by simp
  from Cons.prems(1) have g: "g < length (runs s)"
    by (simp add: only_current_def)
  have oc: "only_current g (deliver h m s)"
    using Cons.prems(1) by (rule only_current_deliver)
  show ?case
  proof (cases "h = g")
    case True
    let ?d = "\<lparr>subject = m_subject m, msg_value = dec (m_data m), received = m_time m\<rparr>"
    let ?ed = "red (data s) ?d"
    let ?s' = "deliver g m s"
    from Cons.prems(8) ev True have "decoder (m_data m) = Some (dec (m_data m))"
      by simp
    with Cons.prems(5) have dm: "decoder_of (runs s ! g) (m_data m) = Some (dec (m_data m))"
      by simp
    from red Cons.prems(4,6)
    have rm: "reducer_of (runs s ! g) (effectData (runs s ! g)) ?d = Some ?ed"
      by simp
    have eq: "?s' = s\<lparr>runs := (runs s)[g := (runs s ! g)\<lparr>effectData := ?ed\<rparr>], data := ?ed,
       trace := trace s @ [Ack m, SetData ?ed]\<rparr>"
      using g Cons.prems(3) Cons.prems(2) dm rm by (rule deliver_current)
    have r': "runs ?s' ! g = (runs s ! g)\<lparr>effectData := ?ed\<rparr>"
      using g by (simp add: eq)
    have d': "data ?s' = ?ed"
      by (simp add: eq)
    have msgs: "\<forall>m\<in>set (delivered_to g evs). decoder (m_data m) = Some (dec (m_data m))"
      using Cons.prems(8) ev True by simp
    have "data (foldl (hookStep toISOString) ?s' evs) =
         foldl red (data ?s')
           (map (\<lambda>m. \<lparr>subject = m_subject m, msg_value = dec (m_data m), received = m_time m\<rparr>)
              (delivered_to g evs))"
    proof (rule Cons.IH [OF oc [unfolded True] _ _ _ _ _ rest msgs])
      show "isCurrent (runs ?s' ! g)" using Cons.prems(2) by (simp add: r')
      show "looping (runs ?s' ! g)" using Cons.prems(3) by (simp add: r')
      show "data ?s' = effectData (runs ?s' ! g)" by (simp add: r' d')
      show "decoder_of (runs ?s' ! g) = decoder" using Cons.prems(5) by (simp add: r')
      show "reducer_of (runs ?s' ! g) = reducer" using Cons.prems(6) by (simp add: r')
    qed
    with ev True d' show ?thesis
      by (simp add: hookStep_Deliver)
  next
    case False
    let ?s' = "deliver h m s"
    from Cons.prems(1) False have "\<not> (h < length (runs s) \<and> isCurrent (runs s ! h))"
      unfolding only_current_def by blast
    then have d': "data ?s' = data s"
      by (rule deliver_data_not_current)
    from False have r': "runs ?s' ! g = runs s ! g"
      by (simp add: deliver_other)
    have msgs: "\<forall>m\<in>set (delivered_to g evs). decoder (m_data m) = Some (dec (m_data m))"
      using Cons.prems(8) ev False by simp
    have "data (foldl (hookStep toISOString) ?s' evs) =
         foldl red (data ?s')
           (map (\<lambda>m. \<lparr>subject = m_subject m, msg_value = dec (m_data m), received = m_time m\<rparr>)
              (delivered_to g evs))"
    proof (rule Cons.IH [OF oc _ _ _ _ _ rest msgs])
      show "isCurrent (runs ?s' ! g)" using Cons.prems(2) by (simp add: r')
      show "looping (runs ?s' ! g)" using Cons.prems(3) by (simp add: r')
      show "data ?s' = effectData (runs ?s' ! g)" using Cons.prems(4) by (simp add: r' d')
      show "decoder_of (runs ?s' ! g) = decoder" using Cons.prems(5) by (simp add: r')
      show "reducer_of (runs ?s' ! g) = reducer" using Cons.prems(6) by (simp add: r')
    qed
    with ev False d' show ?thesis
      by (simp add: hookStep_Deliver)
  qed
qed

lemma only_current_effect_started:
  assumes "no_current s"
  shows "only_current (length (runs s)) (s\<lparr>data := d, runs := runs s @ [r], cleanup := c, trace := tr\<rparr>)"
proof -
  have "\<not> isCurrent ((runs s @ [r]) ! g')" if "g' < length (runs s @ [r])" "g' \<noteq> length (runs s)" for g'
  proof -
    from that have l: "g' < length (runs s)" by simp
    with assms have "\<not> isCurrent (runs s ! g')"
      unfolding no_current_def by blast
    with l show ?thesis by (simp add: nth_append)
  qed
  then show ?thesis
    unfolding only_current_def by simp
qed

lemma only_current_append:
  assumes "no_current s" and "runs s' = runs s @ [r]"
  shows "only_current (length (runs s)) s'"
proof -
  have "\<not> isCurrent (runs s' ! g')" if "g' < length (runs s')" "g' \<noteq> length (runs s)" for g'
  proof -
    from that assms(2) have l: "g' < length (runs s)" by simp
    with assms(1) have "\<not> isCurrent (runs s ! g')"
      unfolding no_current_def by blast
    with l assms(2) show ?thesis by (simp add: nth_append)
  qed
  then show ?thesis
    unfolding only_current_def using assms(2) by simp
qed

lemma no_current_same_runs: "no_current s \<Longrightarrow> runs s' = runs s \<Longrightarrow> no_current s'"
  by (simp add: no_current_def)

lemma effect_trace: "\<exists>rest. trace (effect toISOString i s) = trace s @ SetData [] # rest"
  by (simp add: effect_def Let_def split: option.splits)

lemma deliver_gets:
  "filter is_ConsumersGet (trace (deliver g m s)) = filter is_ConsumersGet (trace s)"
  by (simp add: deliver_def Let_def split: option.splits)

lemma foldl_deliver_gets:
  "\<forall>ev\<in>set evs. is_Deliver ev \<Longrightarrow>
   filter is_ConsumersGet (trace (foldl (hookStep toISOString) s evs)) =
   filter is_ConsumersGet (trace s)"
proof (induction evs arbitrary: s)
  case Nil
  then show ?case by simp
next
  case (Cons ev evs)
  from Cons.prems obtain g m where ev: "ev = Deliver g m"
    by (cases ev) simp_all
  from Cons.prems have "\<forall>ev\<in>set evs. is_Deliver ev" by simp
  from Cons.IH [OF this, of "deliver g m s"] ev show ?case
    by (simp add: hookStep_Deliver deliver_gets)
qed

lemma deliver_thrown:
  assumes "g < length (runs s)" "looping (runs s ! g)"
    and "decoder_of (runs s ! g) (m_data m) = None \<or>
         (decoder_of (runs s ! g) (m_data m) = Some v \<and>
          reducer_of (runs s ! g) (effectData (runs s ! g))
            \<lparr>subject = m_subject m, msg_value = v, received = m_time m\<rparr> = None)"
  shows "deliver g m s =
     s\<lparr>runs := (runs s)[g := (runs s ! g)\<lparr>looping := False\<rparr>],
       trace := trace s @ [DeleteConsumer g]\<rparr>"
  using assms by (auto simp: deliver_def Let_def)

subsection \<open>Claims about the stream hook\<close>

text \<open>
  Claim C1. After any history of the hook, let the effect run with inputs that pass its
  guards, and let messages then reach the read loops while this effect stays current.
  If \<open>decode\<close> returns on the messages handed to the new loop and \<open>reduce\<close> returns, the
  hook's \<open>data\<close> is the left fold of \<open>reduce\<close>, from the empty array, over the records
  \<open>{received: m.time, subject: m.subject, value: decode(m.data)}\<close> of those messages in
  the order of delivery. Messages handed to loops of earlier runs do not enter.
\<close>

theorem stream_data_is_left_fold:
  assumes "in_connection i = Some c" and "in_opt_start_time i = Some t"
    and "in_stream i = Some name" and "name \<noteq> []" and "toISOString t = Some isoString"
    and "g = length (runs (useNatsStream toISOString evs0))"
    and "\<forall>ev\<in>set evs. is_Deliver ev"
    and "\<forall>m\<in>set (delivered_to g evs). in_decoder i (m_data m) = Some (dec (m_data m))"
    and "\<forall>acc d. in_reducer i acc d = Some (red acc d)"
  shows "data (useNatsStream toISOString (evs0 @ Rerun i # evs)) =
         foldl red []
           (map (\<lambda>m. \<lparr>subject = m_subject m, msg_value = dec (m_data m), received = m_time m\<rparr>)
              (delivered_to g evs))"
proof -
  let ?s = "run_cleanup (useNatsStream toISOString evs0)"
  let ?r = "\<lparr>isCurrent = True, effectData = [], looping = True,
             decoder_of = in_decoder i, reducer_of = in_reducer i\<rparr>"
  let ?s1 = "effect toISOString i ?s"
  have nc: "no_current ?s"
    by (rule no_current_run_cleanup) (rule cleanup_inv_reachable)
  have len: "length (runs ?s) = g"
    using assms(6) by simp
  have eq: "?s1 = ?s\<lparr>data := [], runs := runs ?s @ [?r], cleanup := Some (length (runs ?s)),
       trace := trace ?s @ [SetData [], ConsumersGet name
          \<lparr>opt_start_time = Some isoString, deliver_policy = Some StartTime,
            filter_subjects = (if truthy_subject (in_subject i) then in_subject i else None)\<rparr>]\<rparr>"
    using assms(1-5) by (rule effect_started)
  have oc: "only_current g ?s1"
    unfolding eq using only_current_effect_started [OF nc] len by simp
  have r: "runs ?s1 ! g = ?r"
    unfolding eq using len by (simp add: nth_append)
  have d: "data ?s1 = []" by simp
  have "data (foldl (hookStep toISOString) ?s1 evs) =
         foldl red (data ?s1)
           (map (\<lambda>m. \<lparr>subject = m_subject m, msg_value = dec (m_data m), received = m_time m\<rparr>)
              (delivered_to g evs))"
    using oc _ _ _ _ _ assms(7,8,9)
  proof (rule current_loop_fold)
    show "isCurrent (runs ?s1 ! g)" by (simp add: r)
    show "looping (runs ?s1 ! g)" by (simp add: r)
    show "data ?s1 = effectData (runs ?s1 ! g)" by (simp add: r)
    show "decoder_of (runs ?s1 ! g) = in_decoder i" by (simp add: r)
    show "reducer_of (runs ?s1 ! g) = in_reducer i" by (simp add: r)
  qed
  then show ?thesis
    by (simp add: useNatsStream_def hookStep_Rerun)
qed

text \<open>
  Two messages for the current loop with one for a cancelled loop between them.
\<close>

theorem stream_data_is_left_fold_witness:
  "in_connection sampleOptions = Some () \<and> in_opt_start_time sampleOptions = Some 0 \<and>
   in_stream sampleOptions = Some ''orders'' \<and>
   sampleISO 0 = Some ''1970-01-01T00:00:00.000Z'' \<and>
   length (runs (useNatsStream sampleISO
     [Rerun (sampleOptions\<lparr>in_stream := Some ''old''\<rparr>), Deliver 0 (msg 1 [5])])) = 1 \<and>
   delivered_to 1 [Deliver 1 (msg 2 [7]), Deliver 0 (msg 3 [6]), Deliver 1 (msg 4 [8])
      :: (unit, bytes, nat) streamEvent]
     = [msg 2 [7], msg 4 [8]] \<and>
   data (useNatsStream sampleISO
     ([Rerun (sampleOptions\<lparr>in_stream := Some ''old''\<rparr>), Deliver 0 (msg 1 [5])] @
      Rerun sampleOptions #
      [Deliver 1 (msg 2 [7]), Deliver 0 (msg 3 [6]), Deliver 1 (msg 4 [8])]))
     = [published 2 [7], published 4 [8]]"
proof -
  let ?pre = "[Rerun (sampleOptions\<lparr>in_stream := Some ''old''\<rparr>), Deliver 0 (msg 1 [5])]"
  let ?post = "[Deliver 1 (msg 2 [7]), Deliver 0 (msg 3 [6]), Deliver 1 (msg 4 [8])
      :: (unit, bytes, nat) streamEvent]"
  have h1: "in_connection sampleOptions = Some ()"
    and h2: "in_opt_start_time sampleOptions = Some 0"
    and h3: "in_stream sampleOptions = Some ''orders''"
    and h4: "''orders'' \<noteq> []"
    and h5: "sampleISO 0 = Some ''1970-01-01T00:00:00.000Z''"
    by (simp_all add: sampleOptions_def sampleISO_def)
  have h6: "1 = length (runs (useNatsStream sampleISO ?pre))"
    by (simp add: stream_eval)
  have h7: "\<forall>ev\<in>set ?post. is_Deliver ev" by simp
  have dl: "delivered_to 1 ?post = [msg 2 [7], msg 4 [8]]" by simp
  have h8: "\<forall>m\<in>set (delivered_to 1 ?post). in_decoder sampleOptions (m_data m) = Some (id (m_data m))"
    by (simp add: sampleOptions_def msg_def)
  have h9: "\<forall>acc d. in_reducer sampleOptions acc d = Some ((\<lambda>arr element. arr @ [element]) acc d)"
    by (simp add: sampleOptions_def)
  from stream_data_is_left_fold [OF h1 h2 h3 h4 h5 h6 h7 h8 h9] h1 h2 h3 h5 h6 dl
  show ?thesis
    by (simp add: msg_def published_def)
qed

text \<open>
  Claim C5. When the effect runs with a connection, a non-empty stream name and an
  \<open>opt_start_time\<close> on which \<open>toISOString\<close> returns, it calls \<open>js.consumers.get\<close> with the
  stream name and with options whose \<open>opt_start_time\<close> is that ISO string and whose
  \<open>deliver_policy\<close> is \<open>StartTime\<close>, the options that make the consumer start at that
  time; and when a subject is supplied, which the code tests by \<open>if (subject)\<close> (an array
  or a non-empty string), \<open>filter_subjects\<close> is that subject; otherwise it is not set.
\<close>

theorem consumer_options_replay:
  assumes "in_connection i = Some c" and "in_opt_start_time i = Some t"
    and "in_stream i = Some name" and "name \<noteq> []" and "toISOString t = Some isoString"
  shows "trace (hookStep toISOString s (Rerun i)) =
           trace s @ [SetData [], ConsumersGet name
             \<lparr>opt_start_time = Some isoString, deliver_policy = Some StartTime,
               filter_subjects = (if truthy_subject (in_subject i) then in_subject i else None)\<rparr>] \<and>
         truthy_subject (in_subject i) =
           (in_subject i \<noteq> None \<and> in_subject i \<noteq> Some (Subject []))"
proof -
  have "truthy_subject (in_subject i) = (in_subject i \<noteq> None \<and> in_subject i \<noteq> Some (Subject []))"
    by (simp add: truthy_subject_def split: option.splits subjectFilter.splits)
  with effect_started [where s = "run_cleanup s" and toISOString = toISOString, OF assms] show ?thesis
    by (simp add: hookStep_Rerun)
qed

text \<open>
  The call made for the sample inputs.
\<close>

theorem consumer_options_replay_witness:
  "in_connection sampleOptions = Some () \<and> in_opt_start_time sampleOptions = Some 0 \<and>
   in_stream sampleOptions = Some ''orders'' \<and>
   sampleISO 0 = Some ''1970-01-01T00:00:00.000Z'' \<and>
   truthy_subject (in_subject sampleOptions) \<and>
   trace (hookStep sampleISO hookInit (Rerun sampleOptions)) =
     [SetData [], ConsumersGet ''orders''
        \<lparr>opt_start_time = Some ''1970-01-01T00:00:00.000Z'', deliver_policy = Some StartTime,
          filter_subjects = Some (Subject ''orders.*'')\<rparr>]"
proof -
  have h1: "in_connection sampleOptions = Some ()"
    and h2: "in_opt_start_time sampleOptions = Some 0"
    and h3: "in_stream sampleOptions = Some ''orders''"
    and h4: "''orders'' \<noteq> []"
    and h5: "sampleISO 0 = Some ''1970-01-01T00:00:00.000Z''"
    by (simp_all add: sampleOptions_def sampleISO_def)
  have subj: "in_subject sampleOptions = Some (Subject ''orders.*'')"
    by (simp add: sampleOptions_def)
  from consumer_options_replay [where toISOString = sampleISO and s = hookInit, OF h1 h2 h3 h4 h5]
    h1 h2 h3 h5 subj
  show ?thesis
    by (simp add: hookInit_def)
qed

text \<open>
  Claim C6, for messages that are processed without an exception. When a message
  reaches a looping run and \<open>decode\<close> and \<open>reduce\<close> return, the iteration calls
  \<open>m.ack()\<close> exactly once and first; what follows depends on \<open>isCurrent\<close>: \<open>setData\<close>
  with the reduced array when the run is current, otherwise the loop is left and the
  consumer deleted, with \<open>data\<close> unchanged. When \<open>decode\<close> or \<open>reduce\<close> throws,
  the loop is left and the consumer deleted with no call of \<open>m.ack()\<close> and with
  \<open>data\<close> unchanged.
\<close>

theorem ack_precedes_cancellation_check:
  assumes "g < length (runs s)" and "looping (runs s ! g)"
  shows "(decoder_of (runs s ! g) (m_data m) = Some v \<and>
          reducer_of (runs s ! g) (effectData (runs s ! g))
            \<lparr>subject = m_subject m, msg_value = v, received = m_time m\<rparr> = Some ed \<longrightarrow>
            trace (deliver g m s) =
              trace s @ [Ack m, if isCurrent (runs s ! g) then SetData ed else DeleteConsumer g] \<and>
            (\<not> isCurrent (runs s ! g) \<longrightarrow>
               data (deliver g m s) = data s \<and> \<not> looping (runs (deliver g m s) ! g))) \<and>
         (decoder_of (runs s ! g) (m_data m) = None \<or>
          (decoder_of (runs s ! g) (m_data m) = Some v \<and>
           reducer_of (runs s ! g) (effectData (runs s ! g))
             \<lparr>subject = m_subject m, msg_value = v, received = m_time m\<rparr> = None) \<longrightarrow>
            trace (deliver g m s) = trace s @ [DeleteConsumer g] \<and>
            data (deliver g m s) = data s \<and> \<not> looping (runs (deliver g m s) ! g))"
proof (intro conjI impI)
  assume ok: "decoder_of (runs s ! g) (m_data m) = Some v \<and>
          reducer_of (runs s ! g) (effectData (runs s ! g))
            \<lparr>subject = m_subject m, msg_value = v, received = m_time m\<rparr> = Some ed"
  then have dv: "decoder_of (runs s ! g) (m_data m) = Some v"
    and re: "reducer_of (runs s ! g) (effectData (runs s ! g))
            \<lparr>subject = m_subject m, msg_value = v, received = m_time m\<rparr> = Some ed"
    by simp_all
  show "trace (deliver g m s) =
      trace s @ [Ack m, if isCurrent (runs s ! g) then SetData ed else DeleteConsumer g]"
  proof (cases "isCurrent (runs s ! g)")
    case True
    from deliver_current [OF assms True dv re] True show ?thesis by simp
  next
    case False
    from deliver_cancelled [OF assms False dv re] False show ?thesis by simp
  qed
  assume nc: "\<not> isCurrent (runs s ! g)"
  from deliver_cancelled [OF assms nc dv re] assms(1)
  show "data (deliver g m s) = data s" and "\<not> looping (runs (deliver g m s) ! g)"
    by simp_all
next
  assume th: "decoder_of (runs s ! g) (m_data m) = None \<or>
          (decoder_of (runs s ! g) (m_data m) = Some v \<and>
           reducer_of (runs s ! g) (effectData (runs s ! g))
             \<lparr>subject = m_subject m, msg_value = v, received = m_time m\<rparr> = None)"
  from deliver_thrown [OF assms th] assms(1)
  show "trace (deliver g m s) = trace s @ [DeleteConsumer g]"
    and "data (deliver g m s) = data s" and "\<not> looping (runs (deliver g m s) ! g)"
    by simp_all
qed

text \<open>
  The last message of a run whose effect was cleaned up: acknowledged, not published;
  and a message with an empty payload, which the sample decoder rejects.
\<close>

theorem ack_precedes_cancellation_check_witness:
  "0 < length (runs (useNatsStream sampleISO [Rerun sampleOptions, Unmount])) \<and>
   looping (runs (useNatsStream sampleISO [Rerun sampleOptions, Unmount]) ! 0) \<and>
   \<not> isCurrent (runs (useNatsStream sampleISO [Rerun sampleOptions, Unmount]) ! 0) \<and>
   trace (deliver 0 (msg 1 [7]) (useNatsStream sampleISO [Rerun sampleOptions, Unmount])) =
     trace (useNatsStream sampleISO [Rerun sampleOptions, Unmount]) @
       [Ack (msg 1 [7]), DeleteConsumer 0] \<and>
   data (deliver 0 (msg 1 [7]) (useNatsStream sampleISO [Rerun sampleOptions, Unmount])) = [] \<and>
   trace (deliver 0 (msg 2 []) (useNatsStream sampleISO [Rerun sampleOptions, Unmount])) =
     trace (useNatsStream sampleISO [Rerun sampleOptions, Unmount]) @ [DeleteConsumer 0]"
proof -
  let ?c = "useNatsStream sampleISO [Rerun sampleOptions, Unmount] :: (bytes, nat) streamHook"
  have c1: "0 < length (runs ?c)" and c2: "looping (runs ?c ! 0)"
    and c3: "\<not> isCurrent (runs ?c ! 0)"
    and c4: "decoder_of (runs ?c ! 0) (m_data (msg 1 [7])) = Some [7]"
    and c5: "reducer_of (runs ?c ! 0) (effectData (runs ?c ! 0))
       \<lparr>subject = m_subject (msg 1 [7]), msg_value = [7], received = m_time (msg 1 [7])\<rparr>
       = Some [published 1 [7]]"
    and c6: "data ?c = []"
    and c7: "decoder_of (runs ?c ! 0) (m_data (msg 2 [])) = None"
    by (simp_all add: stream_eval)
  note T = ack_precedes_cancellation_check [OF c1 c2, where m = "msg 1 [7]" and v = "[7]"
      and ed = "[published 1 [7]]"]
  note U = ack_precedes_cancellation_check [OF c1 c2, where m = "msg 2 []" and v = "[]"
      and ed = "[]"]
  from T c3 c4 c5
  have t: "trace (deliver 0 (msg 1 [7]) ?c) = trace ?c @ [Ack (msg 1 [7]), DeleteConsumer 0]"
    by simp
  from T c3 c4 c5 have "data (deliver 0 (msg 1 [7]) ?c) = data ?c"
    by blast
  with c6 have d: "data (deliver 0 (msg 1 [7]) ?c) = []"
    by simp
  from U c7 have u: "trace (deliver 0 (msg 2 []) ?c) = trace ?c @ [DeleteConsumer 0]"
    by blast
  from c1 c2 c3 t d u show ?thesis by blast
qed

text \<open>
  A delivered message is not always acknowledged: when \<open>decode\<close> throws (here on an
  empty payload), the loop is left through \<open>finally\<close> before \<open>m.ack()\<close> is reached.
\<close>

theorem decoder_throws_unacknowledged_counterexample:
  "looping (runs (useNatsStream sampleISO [Rerun sampleOptions]) ! 0) \<and>
   in_decoder sampleOptions (m_data (msg 1 [])) = None \<and>
   trace (useNatsStream sampleISO [Rerun sampleOptions, Deliver 0 (msg 1 [])]) =
     [SetData [], ConsumersGet ''orders''
        \<lparr>opt_start_time = Some ''1970-01-01T00:00:00.000Z'', deliver_policy = Some StartTime,
          filter_subjects = Some (Subject ''orders.*'')\<rparr>,
      DeleteConsumer 0] \<and>
   Ack (msg 1 []) \<notin> set (trace (useNatsStream sampleISO [Rerun sampleOptions, Deliver 0 (msg 1 [])]))"
  by (simp add: stream_eval)

text \<open>
  Claim C8. After any history of the hook, when the effect runs with no connection, no
  \<open>opt_start_time\<close> or no stream, it only resets \<open>data\<close>: no call of
  \<open>js.consumers.get\<close> is made and no run is added; and whatever messages then reach the
  loops of earlier runs, \<open>data\<close> stays empty and no consumer is requested.
\<close>

theorem no_consumer_without_inputs:
  assumes "in_connection i = None \<or> in_opt_start_time i = None \<or> in_stream i = None"
    and "\<forall>ev\<in>set evs. is_Deliver ev"
  shows "trace (useNatsStream toISOString (evs0 @ [Rerun i])) =
           trace (useNatsStream toISOString evs0) @ [SetData []] \<and>
         length (runs (useNatsStream toISOString (evs0 @ [Rerun i]))) =
           length (runs (useNatsStream toISOString evs0)) \<and>
         data (useNatsStream toISOString (evs0 @ Rerun i # evs)) = [] \<and>
         filter is_ConsumersGet (trace (useNatsStream toISOString (evs0 @ Rerun i # evs))) =
           filter is_ConsumersGet (trace (useNatsStream toISOString evs0))"
proof -
  let ?s = "run_cleanup (useNatsStream toISOString evs0)"
  let ?s1 = "effect toISOString i ?s"
  have eq: "?s1 = ?s\<lparr>data := [], trace := trace ?s @ [SetData []], cleanup := None\<rparr>"
    using assms(1) by (rule effect_skipped)
  have nc: "no_current ?s"
    by (rule no_current_run_cleanup) (rule cleanup_inv_reachable)
  have "runs ?s1 = runs ?s" by (simp add: eq)
  with nc have "no_current ?s1" by (rule no_current_same_runs)
  then have "data (foldl (hookStep toISOString) ?s1 evs) = data ?s1"
    using assms(2) by (rule no_current_data)
  then have d: "data (foldl (hookStep toISOString) ?s1 evs) = []" by simp
  have t: "trace ?s1 = trace (useNatsStream toISOString evs0) @ [SetData []]"
    by (simp add: eq)
  have l: "length (runs ?s1) = length (runs (useNatsStream toISOString evs0))"
    by (simp add: eq)
  have "filter is_ConsumersGet (trace (foldl (hookStep toISOString) ?s1 evs)) =
        filter is_ConsumersGet (trace ?s1)"
    using assms(2) by (rule foldl_deliver_gets)
  with t have f: "filter is_ConsumersGet (trace (foldl (hookStep toISOString) ?s1 evs)) =
        filter is_ConsumersGet (trace (useNatsStream toISOString evs0))"
    by simp
  from d t l f show ?thesis
    by (simp add: useNatsStream_def hookStep_Rerun)
qed

text \<open>
  A hook that had published a message is re-run without a stream.
\<close>

theorem no_consumer_without_inputs_witness:
  "(in_connection (sampleOptions\<lparr>in_stream := None\<rparr>) = None \<or>
    in_opt_start_time (sampleOptions\<lparr>in_stream := None\<rparr>) = None \<or>
    in_stream (sampleOptions\<lparr>in_stream := None\<rparr>) = None) \<and>
   trace (useNatsStream sampleISO [Rerun sampleOptions, Deliver 0 (msg 1 [7])]) =
     [SetData [], ConsumersGet ''orders''
        \<lparr>opt_start_time = Some ''1970-01-01T00:00:00.000Z'', deliver_policy = Some StartTime,
          filter_subjects = Some (Subject ''orders.*'')\<rparr>,
      Ack (msg 1 [7]), SetData [published 1 [7]]] \<and>
   trace (useNatsStream sampleISO
       ([Rerun sampleOptions, Deliver 0 (msg 1 [7])] @ [Rerun (sampleOptions\<lparr>in_stream := None\<rparr>)])) =
     [SetData [], ConsumersGet ''orders''
        \<lparr>opt_start_time = Some ''1970-01-01T00:00:00.000Z'', deliver_policy = Some StartTime,
          filter_subjects = Some (Subject ''orders.*'')\<rparr>,
      Ack (msg 1 [7]), SetData [published 1 [7]], SetData []] \<and>
   data (useNatsStream sampleISO
       ([Rerun sampleOptions, Deliver 0 (msg 1 [7])] @ Rerun (sampleOptions\<lparr>in_stream := None\<rparr>) #
        [Deliver 0 (msg 2 [8]), Deliver 1 (msg 3 [9])])) = []"
proof -
  have h: "in_connection (sampleOptions\<lparr>in_stream := None\<rparr>) = None \<or>
    in_opt_start_time (sampleOptions\<lparr>in_stream := None\<rparr>) = None \<or>
    in_stream (sampleOptions\<lparr>in_stream := None\<rparr>) = None"
    by simp
  have d: "\<forall>ev\<in>set [Deliver 0 (msg 2 [8]), Deliver 1 (msg 3 [9]) :: (unit, bytes, nat) streamEvent].
     is_Deliver ev"
    by simp
  have before: "trace (useNatsStream sampleISO [Rerun sampleOptions, Deliver 0 (msg 1 [7])]) =
     [SetData [], ConsumersGet ''orders''
        \<lparr>opt_start_time = Some ''1970-01-01T00:00:00.000Z'', deliver_policy = Some StartTime,
          filter_subjects = Some (Subject ''orders.*'')\<rparr>,
      Ack (msg 1 [7]), SetData [published 1 [7]]]"
    by (simp add: stream_eval)
  from no_consumer_without_inputs [where toISOString = sampleISO
      and ?evs0.0 = "[Rerun sampleOptions, Deliver 0 (msg 1 [7])]", OF h d] h before
  show ?thesis by simp
qed

text \<open>
  After any history, what a re-run of the effect publishes from then on is what a freshly
  mounted hook with the same inputs publishes from the messages handed to the new run.
\<close>

lemma rerun_like_fresh_mount:
  fixes i :: "('c, 'u, 'd) natsStreamOptions"
  assumes "\<forall>ev\<in>set evs. is_Deliver ev"
  shows "data (foldl (hookStep toISOString)
                 (hookStep toISOString (useNatsStream toISOString evs0) (Rerun i)) evs) =
         data (foldl (hookStep toISOString) (hookStep toISOString hookInit (Rerun i))
                 (map (Deliver 0)
                    (delivered_to (length (runs (useNatsStream toISOString evs0))) evs)
                  :: ('c, 'u, 'd) streamEvent list))"
proof -
  let ?h = "useNatsStream toISOString evs0"
  let ?c = "run_cleanup ?h"
  let ?e = "effect toISOString i ?c"
  let ?f = "effect toISOString i (hookInit :: ('u, 'd) streamHook)"
  let ?g = "length (runs ?h)"
  let ?evs' = "map (Deliver 0) (delivered_to ?g evs) :: ('c, 'u, 'd) streamEvent list"
  have fresh: "hookStep toISOString hookInit (Rerun i) = ?f"
    by (simp add: hookStep_Rerun run_cleanup_def hookInit_def)
  have nc: "no_current ?c"
    by (rule no_current_run_cleanup) (rule cleanup_inv_reachable)
  have dl: "\<forall>ev\<in>set ?evs'. is_Deliver ev" by simp
  from effect_shape [of toISOString i] obtain rs :: "('u, 'd) effectRun list" where
    sh: "\<And>s :: ('u, 'd) streamHook. runs (effect toISOString i s) = runs s @ rs"
    and rs: "rs = [] \<or> (\<exists>r. rs = [r])"
    by blast
  have "data (foldl (hookStep toISOString) ?e evs) = data (foldl (hookStep toISOString) ?f ?evs')"
  proof (cases "rs = []")
    case True
    with sh [of ?c] have "runs ?e = runs ?c" by simp
    with nc have "no_current ?e" by (rule no_current_same_runs)
    then have a: "data (foldl (hookStep toISOString) ?e evs) = data ?e"
      using assms by (rule no_current_data)
    from True sh [of hookInit] have "runs ?f = []"
      by (simp add: hookInit_def)
    then have "no_current ?f" by (simp add: no_current_def)
    then have "data (foldl (hookStep toISOString) ?f ?evs') = data ?f"
      using dl by (rule no_current_data)
    with a show ?thesis by simp
  next
    case False
    with rs obtain r where rs1: "rs = [r]" by blast
    from sh [of ?c] rs1 have runs1: "runs ?e = runs ?c @ [r]" by simp
    from sh [of hookInit] rs1 have runsf: "runs ?f = [r]"
      by (simp add: hookInit_def)
    from only_current_append [OF nc runs1] have oc: "only_current ?g ?e" by simp
    have l: "0 < length (runs ?f)" by (simp add: runsf)
    have v: "runs ?e ! ?g = runs ?f ! 0"
      by (simp add: runs1 runsf nth_append)
    have d: "data ?e = data ?f" by simp
    from oc l v d assms show ?thesis by (rule same_view_data)
  qed
  with fresh show ?thesis by (simp add: hookStep_Rerun)
qed

text \<open>
  When no object was changed in place, inputs that differ in any field differ in some
  dependency.
\<close>

lemma changed_value_changes_deps:
  assumes "unmutated prev r" and "inputs r \<noteq> inputs prev"
  shows "deps r \<noteq> deps prev"
proof
  assume eq: "deps r = deps prev"
  then have c: "in_connection (inputs r) = in_connection (inputs prev)"
    and st: "in_stream (inputs r) = in_stream (inputs prev)"
    and dr: "decoder_ref r = decoder_ref prev" and rr: "reducer_ref r = reducer_ref prev"
    by (simp_all add: deps_def)
  from eq have sd:
    "(case in_subject (inputs r) of
         None \<Rightarrow> Undefined
       | Some (Subject str) \<Rightarrow> StringValue str
       | Some (Subjects strs) \<Rightarrow> Reference (subject_ref r)) =
     (case in_subject (inputs prev) of
         None \<Rightarrow> Undefined
       | Some (Subject str) \<Rightarrow> StringValue str
       | Some (Subjects strs) \<Rightarrow> Reference (subject_ref prev))"
    and td:
    "(case in_opt_start_time (inputs r) of
         None \<Rightarrow> Undefined
       | Some t \<Rightarrow> Reference (opt_start_time_ref r)) =
     (case in_opt_start_time (inputs prev) of
         None \<Rightarrow> Undefined
       | Some t \<Rightarrow> Reference (opt_start_time_ref prev))"
    by (simp_all add: deps_def)
  from assms(1) dr have de: "in_decoder (inputs r) = in_decoder (inputs prev)"
    by (simp add: unmutated_def)
  from assms(1) rr have re: "in_reducer (inputs r) = in_reducer (inputs prev)"
    by (simp add: unmutated_def)
  from assms(1) have su:
    "subject_ref r = subject_ref prev \<Longrightarrow> in_subject (inputs r) = Some (Subjects a) \<Longrightarrow>
     in_subject (inputs prev) = Some (Subjects b) \<Longrightarrow> a = b" for a b
    unfolding unmutated_def by blast
  from assms(1) have tu:
    "opt_start_time_ref r = opt_start_time_ref prev \<Longrightarrow> in_opt_start_time (inputs r) = Some a \<Longrightarrow>
     in_opt_start_time (inputs prev) = Some b \<Longrightarrow> a = b" for a b
    unfolding unmutated_def by blast
  have sj: "in_subject (inputs r) = in_subject (inputs prev)"
  proof (cases "in_subject (inputs r)")
    case None
    with sd show ?thesis
      by (simp split: option.splits subjectFilter.splits)
  next
    case (Some x)
    show ?thesis
    proof (cases x)
      case (Subject str)
      with Some sd show ?thesis
        by (simp split: option.splits subjectFilter.splits)
    next
      case (Subjects strs)
      with Some sd obtain b where p: "in_subject (inputs prev) = Some (Subjects b)"
        and "subject_ref r = subject_ref prev"
        by (auto split: option.splits subjectFilter.splits)
      with su [of strs b] Some Subjects show ?thesis by simp
    qed
  qed
  have ti: "in_opt_start_time (inputs r) = in_opt_start_time (inputs prev)"
  proof (cases "in_opt_start_time (inputs r)")
    case None
    with td show ?thesis by (simp split: option.splits)
  next
    case (Some a)
    with td obtain b where "in_opt_start_time (inputs prev) = Some b"
      and "opt_start_time_ref r = opt_start_time_ref prev"
      by (auto split: option.splits)
    with tu [of a b] Some show ?thesis by simp
  qed
  from c st de re sj ti have "inputs r = inputs prev"
    by (intro natsStreamOptions.equality) simp_all
  with assms(2) show False by simp
qed

text \<open>
  Claim C10. Whenever a render brings inputs of which one is not the same as at the
  previous render (another reference or string in the dependency array of line 94; in
  particular another value of any input, when no object was changed in place), the effect
  re-runs; its first action is \<open>setData([])\<close>, so \<open>data\<close> is empty right after; and,
  whatever the history before, the \<open>data\<close> produced afterwards is what a freshly mounted
  hook with the new inputs produces from the messages handed to the new run alone, so
  nothing folded under the previous inputs appears in it.
\<close>

theorem changed_inputs_reset_data:
  fixes r :: "('c, 'u, 'd) renderedInputs"
  assumes "deps r \<noteq> deps prev \<or> (unmutated prev r \<and> inputs r \<noteq> inputs prev)"
    and "\<forall>ev\<in>set evs. is_Deliver ev"
  shows "render toISOString prev r (useNatsStream toISOString evs0) =
           hookStep toISOString (useNatsStream toISOString evs0) (Rerun (inputs r)) \<and>
         data (render toISOString prev r (useNatsStream toISOString evs0)) = [] \<and>
         (\<exists>rest. trace (render toISOString prev r (useNatsStream toISOString evs0)) =
            trace (useNatsStream toISOString evs0) @ SetData [] # rest) \<and>
         data (foldl (hookStep toISOString)
                 (render toISOString prev r (useNatsStream toISOString evs0)) evs) =
         data (foldl (hookStep toISOString) (hookStep toISOString hookInit (Rerun (inputs r)))
                 (map (Deliver 0)
                    (delivered_to (length (runs (useNatsStream toISOString evs0))) evs)
                  :: ('c, 'u, 'd) streamEvent list))"
proof -
  let ?h = "useNatsStream toISOString evs0"
  from assms(1) have "deps r \<noteq> deps prev"
    using changed_value_changes_deps [of prev r] by blast
  then have rr: "render toISOString prev r ?h = hookStep toISOString ?h (Rerun (inputs r))"
    by (simp add: render_def)
  have d: "data (hookStep toISOString ?h (Rerun (inputs r))) = []"
    by (simp add: hookStep_Rerun)
  have tr: "\<exists>rest. trace (hookStep toISOString ?h (Rerun (inputs r))) =
      trace ?h @ SetData [] # rest"
    using effect_trace [of toISOString "inputs r" "run_cleanup ?h"]
    by (simp add: hookStep_Rerun)
  note rerun_like_fresh_mount [OF assms(2), of toISOString evs0 "inputs r"]
  with d tr show ?thesis
    unfolding rr by blast
qed

text \<open>
  A render brings a new decoder object with the same \<open>decode\<close> after one message was
  published; a late message for the old run and a message for the new run follow.
\<close>

theorem changed_inputs_reset_data_witness:
  "deps (sampleRender 2) \<noteq> deps (sampleRender 1) \<and>
   inputs (sampleRender 2) = inputs (sampleRender 1) \<and>
   data (useNatsStream sampleISO [Rerun sampleOptions, Deliver 0 (msg 1 [7])]) = [published 1 [7]] \<and>
   data (render sampleISO (sampleRender 1) (sampleRender 2)
           (useNatsStream sampleISO [Rerun sampleOptions, Deliver 0 (msg 1 [7])])) = [] \<and>
   data (foldl (hookStep sampleISO)
           (render sampleISO (sampleRender 1) (sampleRender 2)
              (useNatsStream sampleISO [Rerun sampleOptions, Deliver 0 (msg 1 [7])]))
           ([Deliver 0 (msg 2 [8]), Deliver 1 (msg 3 [9])] :: (unit, bytes, nat) streamEvent list))
     = [published 3 [9]]"
proof -
  let ?h = "useNatsStream sampleISO [Rerun sampleOptions, Deliver 0 (msg 1 [7])]
     :: (bytes, nat) streamHook"
  let ?post = "[Deliver 0 (msg 2 [8]), Deliver 1 (msg 3 [9])] :: (unit, bytes, nat) streamEvent list"
  have h0: "deps (sampleRender 2) \<noteq> deps (sampleRender 1)"
    by (simp add: deps_def sampleRender_def)
  then have h: "deps (sampleRender 2) \<noteq> deps (sampleRender 1) \<or>
     (unmutated (sampleRender 1) (sampleRender 2) \<and>
      inputs (sampleRender 2) \<noteq> inputs (sampleRender 1))"
    by (rule disjI1)
  have i: "inputs (sampleRender 2) = sampleOptions" "inputs (sampleRender 1) = sampleOptions"
    by (simp_all add: sampleRender_def)
  have d: "\<forall>ev\<in>set ?post. is_Deliver ev"
    by simp
  have before: "data ?h = [published 1 [7]]"
    by (simp add: stream_eval)
  have len: "length (runs ?h) = 1"
    by (simp add: stream_eval)
  have dl: "map (Deliver 0) (delivered_to (length (runs ?h)) ?post) =
     ([Deliver 0 (msg 3 [9])] :: (unit, bytes, nat) streamEvent list)"
    unfolding len by simp
  have fresh: "data (foldl (hookStep sampleISO) (hookStep sampleISO hookInit (Rerun sampleOptions))
     ([Deliver 0 (msg 3 [9])] :: (unit, bytes, nat) streamEvent list)) = [published 3 [9]]"
    by (simp add: stream_eval)
  note T = changed_inputs_reset_data [where toISOString = sampleISO
      and ?evs0.0 = "[Rerun sampleOptions, Deliver 0 (msg 1 [7])]", OF h d]
  have a: "data (render sampleISO (sampleRender 1) (sampleRender 2) ?h) = []"
    by (rule T [THEN conjunct2, THEN conjunct1])
  have "data (foldl (hookStep sampleISO) (render sampleISO (sampleRender 1) (sampleRender 2) ?h) ?post) =
     data (foldl (hookStep sampleISO) (hookStep sampleISO hookInit (Rerun (inputs (sampleRender 2))))
       (map (Deliver 0) (delivered_to (length (runs ?h)) ?post)
        :: (unit, bytes, nat) streamEvent list))"
    by (rule T [THEN conjunct2, THEN conjunct2, THEN conjunct2])
  then have b: "data (foldl (hookStep sampleISO)
       (render sampleISO (sampleRender 1) (sampleRender 2) ?h) ?post) = [published 3 [9]]"
    unfolding dl i fresh .
  from h0 i before a b show ?thesis by simp
qed

end
